theory Spec2Isabelle
  imports Main
begin

section \<open>Text primitives\<close>

text \<open>
  A \<^typ>\<open>string\<close> is the list of the code units of a JavaScript string whose code units
  are below 256: the characters U+0000 to U+00FF, ASCII and the Latin-1 supplement.
  On these, \<^verbatim>\<open>\s\<close> and \<^verbatim>\<open>String.prototype.trim\<close> take the six ASCII whitespace
  characters and the no-break space U+00A0 as whitespace, and \<^verbatim>\<open>\w\<close> takes the ASCII
  letters, the digits and the underscore as word characters.
\<close>

definition isSpace :: "char \<Rightarrow> bool" where
  "isSpace c =
     (c \<in> set [CHR 0x09, CHR 0x0A, CHR 0x0B, CHR 0x0C, CHR 0x0D, CHR '' '', CHR 0xA0])"

definition isWord :: "char \<Rightarrow> bool" where
  "isWord c = (c \<in> set ''abcdefghijklmnopqrstuvwxyzABCDEFGHIJKLMNOPQRSTUVWXYZ0123456789_'')"

text \<open>
  The upper-case form of one code unit, where it is one code unit: the letters a to z
  and the Latin-1 letters U+00E0 to U+00FE (U+00F7, the division sign, is no letter)
  go to the unit 32 below. This is also how a regular expression with the flag \<^verbatim>\<open>i\<close>
  canonicalizes a character before it compares: U+00DF, whose upper-case form has two
  units, is left as it is. The upper-case forms of U+00B5 and U+00FF are the single
  units U+039C and U+0178, which lie outside the range of \<^typ>\<open>char\<close>; the two units
  stand for them, so that lengths and every comparison with another upper-case form
  are those of the code.
\<close>

definition lowerCaseUnits :: string where
  "lowerCaseUnits =
     ''abcdefghijklmnopqrstuvwxyz''
     @ [CHR 0xE0, CHR 0xE1, CHR 0xE2, CHR 0xE3, CHR 0xE4, CHR 0xE5, CHR 0xE6,
        CHR 0xE7, CHR 0xE8, CHR 0xE9, CHR 0xEA, CHR 0xEB, CHR 0xEC, CHR 0xED,
        CHR 0xEE, CHR 0xEF, CHR 0xF0, CHR 0xF1, CHR 0xF2, CHR 0xF3, CHR 0xF4,
        CHR 0xF5, CHR 0xF6, CHR 0xF8, CHR 0xF9, CHR 0xFA, CHR 0xFB, CHR 0xFC,
        CHR 0xFD, CHR 0xFE]"

definition upperCaseUnits :: string where
  "upperCaseUnits =
     ''ABCDEFGHIJKLMNOPQRSTUVWXYZ''
     @ [CHR 0xC0, CHR 0xC1, CHR 0xC2, CHR 0xC3, CHR 0xC4, CHR 0xC5, CHR 0xC6,
        CHR 0xC7, CHR 0xC8, CHR 0xC9, CHR 0xCA, CHR 0xCB, CHR 0xCC, CHR 0xCD,
        CHR 0xCE, CHR 0xCF, CHR 0xD0, CHR 0xD1, CHR 0xD2, CHR 0xD3, CHR 0xD4,
        CHR 0xD5, CHR 0xD6, CHR 0xD8, CHR 0xD9, CHR 0xDA, CHR 0xDB, CHR 0xDC,
        CHR 0xDD, CHR 0xDE]"

definition toUpperChar :: "char \<Rightarrow> char" where
  "toUpperChar c =
     (case map_of (zip lowerCaseUnits upperCaseUnits) c of None \<Rightarrow> c | Some u \<Rightarrow> u)"

text \<open>\<^verbatim>\<open>s.toUpperCase()\<close>: unit by unit, with U+00DF (sharp s) becoming \<^verbatim>\<open>SS\<close>.\<close>

definition toUpperCase :: "string \<Rightarrow> string" where
  "toUpperCase s = concat (map (\<lambda>c. if c = CHR 0xDF then ''SS'' else [toUpperChar c]) s)"

text \<open>\<^verbatim>\<open>s.trim()\<close>: whitespace is removed at both ends.\<close>

definition trim :: "string \<Rightarrow> string" where
  "trim s = rev (dropWhile isSpace (rev (dropWhile isSpace s)))"

text \<open>\<^verbatim>\<open>s.split(c)\<close> for a separator of one character; the result is never empty.\<close>

fun split_char :: "char \<Rightarrow> string \<Rightarrow> string list" where
  "split_char sep [] = [[]]"
| "split_char sep (c # cs) =
     (if c = sep then [] # split_char sep cs
      else (case split_char sep cs of
              [] \<Rightarrow> [[c]]
            | p # ps \<Rightarrow> (c # p) # ps))"

text \<open>\<^verbatim>\<open>s.split(/\s+/)\<close>: every maximal run of whitespace is one separator.\<close>

function split_ws :: "string \<Rightarrow> string list" where
  "split_ws [] = [[]]"
| "split_ws (c # cs) =
     (if isSpace c then [] # split_ws (dropWhile isSpace cs)
      else (case split_ws cs of
              [] \<Rightarrow> [[c]]
            | p # ps \<Rightarrow> (c # p) # ps))"
  by pat_completeness auto
termination
  by (relation "measure length") (auto simp: less_Suc_eq_le length_dropWhile_le)

text \<open>\<^verbatim>\<open>parts.join(sep)\<close>.\<close>

fun join :: "string \<Rightarrow> string list \<Rightarrow> string" where
  "join sep [] = []"
| "join sep [p] = p"
| "join sep (p # q # ps) = p @ sep @ join sep (q # ps)"

fun startsWith :: "string \<Rightarrow> string \<Rightarrow> bool" where
  "startsWith s [] = True"
| "startsWith [] (p # ps) = False"
| "startsWith (c # cs) (p # ps) = (c = p \<and> startsWith cs ps)"

text \<open>\<^verbatim>\<open>s.includes(pat)\<close>: \<open>pat\<close> occurs somewhere in \<open>s\<close>.\<close>

fun includes_str :: "string \<Rightarrow> string \<Rightarrow> bool" where
  "includes_str [] pat = (pat = [])"
| "includes_str (c # cs) pat = (startsWith (c # cs) pat \<or> includes_str cs pat)"

text \<open>\<^verbatim>\<open>s.indexOf(pat)\<close>: the first position at which \<open>pat\<close> occurs, or \<open>-1\<close>.\<close>

fun indexOf_from :: "int \<Rightarrow> string \<Rightarrow> string \<Rightarrow> int" where
  "indexOf_from i [] pat = (if pat = [] then i else - 1)"
| "indexOf_from i (c # cs) pat =
     (if startsWith (c # cs) pat then i else indexOf_from (i + 1) cs pat)"

definition indexOf :: "string \<Rightarrow> string \<Rightarrow> int" where
  "indexOf s pat = indexOf_from 0 s pat"

section \<open>Diagnostics\<close>

text \<open>
  Positions are zero-based. A column is a JavaScript number: \<^verbatim>\<open>indexOf\<close> may give \<open>-1\<close>,
  so it is an integer here.
\<close>

record Position =
  line :: nat
  character :: int

record Range =
  start :: Position
  end_pos :: Position

record Diagnostic =
  severity :: nat
  range :: Range
  message :: string
  source :: string

text \<open>
  Every diagnostic literal of the source has the same shape, built here: the rule
  supplies the severity, the end column and the message.
\<close>

definition mkDiagnostic :: "nat \<Rightarrow> nat \<Rightarrow> nat \<Rightarrow> string \<Rightarrow> Diagnostic" where
  "mkDiagnostic sev lineIndex endChar msg =
     \<lparr> severity = sev,
       range = \<lparr> start = \<lparr> line = lineIndex, character = 0 \<rparr>,
                 end_pos = \<lparr> line = lineIndex, character = int endChar \<rparr> \<rparr>,
       message = msg,
       source = ''Echo Query'' \<rparr>"

definition validStartKeywords :: "string list" where
  "validStartKeywords = [''INDEX'', ''FILTER'', ''MAP'', ''AS'', ''SQL'', ''JOIN'']"

definition msgKeyword :: string where
  "msgKeyword = ''Line must start with one of: '' @ join '', '' validStartKeywords"

definition msgIndex :: string where
  "msgIndex = ''INDEX statement must be followed by an index name''"

definition msgFilter :: string where
  "msgFilter = ''FILTER must include a comparison operator (>, <, =, !=)''"

definition msgMap :: string where
  "msgMap = ''MAP statement should typically include field paths (using dots) or AS keyword''"

definition msgQuotes :: string where
  "msgQuotes = ''Unmatched quotes in line''"

definition quoteCount :: "string \<Rightarrow> nat" where
  "quoteCount s = length (filter (\<lambda>c. c = CHR 0x22) s)"

definition hasCondition :: "string \<Rightarrow> bool" where
  "hasCondition s =
     (includes_str s ''>'' \<or> includes_str s ''<'' \<or> includes_str s ''='' \<or> includes_str s ''!='')"

subsection \<open>The validator of \<^verbatim>\<open>src/unnamed/part_003\<close>\<close>

text \<open>
  The body of the \<^verbatim>\<open>forEach\<close> callback of \<^verbatim>\<open>doValidate\<close>. The first word is the part of
  the trimmed line before the first space character; the spans of the INDEX, FILTER, MAP
  and quote rules end at the length of the untrimmed line.
\<close>

definition firstWord_003 :: "string \<Rightarrow> string" where
  "firstWord_003 trimmedLine = toUpperCase (hd (split_char CHR '' '' trimmedLine))"

definition validateLine_003 :: "nat \<Rightarrow> string \<Rightarrow> Diagnostic list" where
  "validateLine_003 lineIndex ln =
     (let trimmedLine = trim ln in
      if trimmedLine = [] \<or> startsWith trimmedLine ''//'' then []
      else
        let firstWord = firstWord_003 trimmedLine in
          (if firstWord \<notin> set validStartKeywords
           then [mkDiagnostic 1 lineIndex (length firstWord) msgKeyword] else [])
        @ (if firstWord = ''INDEX'' \<and> length (split_char CHR '' '' trimmedLine) < 2
           then [mkDiagnostic 1 lineIndex (length ln) msgIndex] else [])
        @ (if firstWord = ''FILTER'' \<and> \<not> hasCondition trimmedLine
           then [mkDiagnostic 1 lineIndex (length ln) msgFilter] else [])
        @ (if firstWord = ''MAP'' \<and> \<not> includes_str trimmedLine ''AS'' \<and> \<not> includes_str trimmedLine ''.''
           then [mkDiagnostic 2 lineIndex (length ln) msgMap] else [])
        @ (if quoteCount trimmedLine mod 2 \<noteq> 0
           then [mkDiagnostic 1 lineIndex (length ln) msgQuotes] else []))"

text \<open>\<^verbatim>\<open>lines.forEach((line, lineIndex) => ...)\<close> with the running index.\<close>

fun forEach_lines :: "(nat \<Rightarrow> string \<Rightarrow> Diagnostic list) \<Rightarrow> nat \<Rightarrow> string list \<Rightarrow> Diagnostic list" where
  "forEach_lines f i [] = []"
| "forEach_lines f i (l # ls) = f i l @ forEach_lines f (Suc i) ls"

definition diagnostics_003 :: "string \<Rightarrow> Diagnostic list" where
  "diagnostics_003 text = forEach_lines validateLine_003 0 (split_char CHR 0x0A text)"

subsection \<open>The validator of \<^verbatim>\<open>src/unnamed/part_001\<close>\<close>

text \<open>
  This variant splits at runs of whitespace, keeps the non-empty parts for the INDEX
  rule and ends every span at the length of the trimmed line.
\<close>

definition firstWord_001 :: "string \<Rightarrow> string" where
  "firstWord_001 trimmedLine = toUpperCase (hd (split_ws trimmedLine))"

definition indexParts_001 :: "string \<Rightarrow> string list" where
  "indexParts_001 trimmedLine = filter (\<lambda>part. length part > 0) (split_ws trimmedLine)"

definition missingIndexName_001 :: "string list \<Rightarrow> bool" where
  "missingIndexName_001 parts =
     (length parts < 2 \<or> (case parts of _ # p1 # _ \<Rightarrow> trim p1 = [] | _ \<Rightarrow> True))"

definition validateLine_001 :: "nat \<Rightarrow> string \<Rightarrow> Diagnostic list" where
  "validateLine_001 lineIndex ln =
     (let trimmedLine = trim ln in
      if trimmedLine = [] \<or> startsWith trimmedLine ''//'' then []
      else
        let firstWord = firstWord_001 trimmedLine in
          (if firstWord \<notin> set validStartKeywords
           then [mkDiagnostic 1 lineIndex (length firstWord) msgKeyword] else [])
        @ (if firstWord = ''INDEX'' \<and> missingIndexName_001 (indexParts_001 trimmedLine)
           then [mkDiagnostic 1 lineIndex
                   (if length trimmedLine = 0 then 5 else length trimmedLine) msgIndex]
           else [])
        @ (if firstWord = ''FILTER'' \<and> \<not> hasCondition trimmedLine
           then [mkDiagnostic 1 lineIndex (length trimmedLine) msgFilter] else [])
        @ (if firstWord = ''MAP'' \<and> \<not> includes_str trimmedLine ''AS'' \<and> \<not> includes_str trimmedLine ''.''
           then [mkDiagnostic 2 lineIndex (length trimmedLine) msgMap] else [])
        @ (if quoteCount trimmedLine mod 2 \<noteq> 0
           then [mkDiagnostic 1 lineIndex (length trimmedLine) msgQuotes] else []))"

definition diagnostics_001 :: "string \<Rightarrow> Diagnostic list" where
  "diagnostics_001 text = forEach_lines validateLine_001 0 (split_char CHR 0x0A text)"

section \<open>Documents and the server state\<close>

text \<open>
  A \<^verbatim>\<open>TextDocument\<close> object of the text-document library. Its methods \<^verbatim>\<open>getText()\<close>,
  \<^verbatim>\<open>getText(range)\<close> and \<^verbatim>\<open>offsetAt(position)\<close> are library code; what they return is
  held in the fields of the record.
\<close>

record TextDocument =
  uri :: string
  getText :: string
  getTextIn :: "Range \<Rightarrow> string"
  offsetAt :: "Position \<Rightarrow> nat"

text \<open>
  A timeout of the JavaScript runtime that has been set and has neither fired nor been
  cleared: its handle, the time at which it is due, and the document its callback holds.
\<close>

record Timeout =
  handle :: nat
  due :: nat
  callbackDocument :: TextDocument

text \<open>
  The server: the timeouts alive in the runtime, the map
  \<^verbatim>\<open>pendingValidationRequests\<close> from URI to timeout handle, the next fresh handle, the
  clock in milliseconds, and the \<^verbatim>\<open>publishDiagnostics\<close> notifications sent so far.
\<close>

record Server =
  timeouts :: "Timeout list"
  pendingValidationRequests :: "string \<rightharpoonup> nat"
  nextHandle :: nat
  clock :: nat
  published :: "(string \<times> Diagnostic list) list"

definition initialServer :: Server where
  "initialServer =
     \<lparr> timeouts = [], pendingValidationRequests = Map.empty, nextHandle = 0, clock = 0,
       published = [] \<rparr>"

definition clearTimeout :: "nat \<Rightarrow> Server \<Rightarrow> Server" where
  "clearTimeout h sv = sv\<lparr> timeouts := filter (\<lambda>t. handle t \<noteq> h) (timeouts sv) \<rparr>"

definition cleanPendingValidation :: "TextDocument \<Rightarrow> Server \<Rightarrow> Server" where
  "cleanPendingValidation textDocument sv =
     (case pendingValidationRequests sv (uri textDocument) of
        None \<Rightarrow> sv
      | Some request \<Rightarrow>
          (clearTimeout request sv)
            \<lparr> pendingValidationRequests :=
                (pendingValidationRequests sv)(uri textDocument := None) \<rparr>)"

definition cleanDiagnostics :: "TextDocument \<Rightarrow> Server \<Rightarrow> Server" where
  "cleanDiagnostics textDocument sv =
     sv\<lparr> published := published sv @ [(uri textDocument, [])] \<rparr>"

subsection \<open>The debounced server of \<^verbatim>\<open>src/unnamed/part_003\<close>\<close>

definition doValidate_003 :: "TextDocument \<Rightarrow> Server \<Rightarrow> Server" where
  "doValidate_003 textDocument sv =
     sv\<lparr> published :=
          published sv @ [(uri textDocument, diagnostics_003 (getText textDocument))] \<rparr>"

text \<open>\<^verbatim>\<open>validate\<close>: cancel what is pending for the URI, then set a timeout of 500 ms.\<close>

definition validate_003 :: "TextDocument \<Rightarrow> Server \<Rightarrow> Server" where
  "validate_003 textDocument sv =
     (let sv1 = cleanPendingValidation textDocument sv;
          h = nextHandle sv1
      in sv1\<lparr> timeouts :=
                 timeouts sv1 @
                   [\<lparr> handle = h, due = clock sv1 + 500, callbackDocument = textDocument \<rparr>],
               pendingValidationRequests :=
                 (pendingValidationRequests sv1)(uri textDocument \<mapsto> h),
               nextHandle := Suc h \<rparr>)"

text \<open>
  The callback of the timeout, run by the runtime when the timeout fires (the timeout is
  then no longer alive): it deletes the map entry of the URI and validates.
\<close>

definition fire_003 :: "Timeout \<Rightarrow> Server \<Rightarrow> Server" where
  "fire_003 t sv =
     doValidate_003 (callbackDocument t)
       (sv\<lparr> timeouts := filter (\<lambda>t'. handle t' \<noteq> handle t) (timeouts sv),
            pendingValidationRequests :=
              (pendingValidationRequests sv)(uri (callbackDocument t) := None) \<rparr>)"

text \<open>
  Time passes until \<open>now\<close>: the runtime fires the timeouts that are due, oldest first
  (all delays are equal, so the list order is the order of expiry).
\<close>

definition advance_003 :: "nat \<Rightarrow> Server \<Rightarrow> Server" where
  "advance_003 now sv =
     fold fire_003 (filter (\<lambda>t. due t \<le> now) (timeouts sv)) (sv\<lparr> clock := max (clock sv) now \<rparr>)"

text \<open>
  What reaches the server: a change notification or a close notification at a time, or
  nothing until a time. The handlers are those registered in the constructor.
\<close>

datatype event =
    DidChangeContent nat TextDocument
  | DidClose nat TextDocument
  | Idle nat

fun handle_003 :: "event \<Rightarrow> Server \<Rightarrow> Server" where
  "handle_003 (DidChangeContent now d) sv = validate_003 d (advance_003 now sv)"
| "handle_003 (DidClose now d) sv =
     cleanDiagnostics d (cleanPendingValidation d (advance_003 now sv))"
| "handle_003 (Idle now) sv = advance_003 now sv"

definition run_003 :: "event list \<Rightarrow> Server" where
  "run_003 evs = fold handle_003 evs initialServer"

text \<open>The timeouts alive for a URI.\<close>

definition pendingTimers :: "string \<Rightarrow> Server \<Rightarrow> Timeout list" where
  "pendingTimers u sv = filter (\<lambda>t. uri (callbackDocument t) = u) (timeouts sv)"

subsection \<open>The immediate server of \<^verbatim>\<open>src/unnamed/part_001\<close>\<close>

definition doValidate_001 :: "TextDocument \<Rightarrow> Server \<Rightarrow> Server" where
  "doValidate_001 textDocument sv =
     sv\<lparr> published :=
          published sv @ [(uri textDocument, diagnostics_001 (getText textDocument))] \<rparr>"

text \<open>
  \<^verbatim>\<open>validate\<close> here cancels what is pending and validates at once (``Perform validation
  immediately instead of with timeout''): no timeout is ever set.
\<close>

definition validate_001 :: "TextDocument \<Rightarrow> Server \<Rightarrow> Server" where
  "validate_001 textDocument sv = doValidate_001 textDocument (cleanPendingValidation textDocument sv)"

fun handle_001 :: "event \<Rightarrow> Server \<Rightarrow> Server" where
  "handle_001 (DidChangeContent now d) sv = validate_001 d (sv\<lparr> clock := max (clock sv) now \<rparr>)"
| "handle_001 (DidClose now d) sv =
     cleanDiagnostics d (cleanPendingValidation d (sv\<lparr> clock := max (clock sv) now \<rparr>))"
| "handle_001 (Idle now) sv = sv\<lparr> clock := max (clock sv) now \<rparr>"

definition run_001 :: "event list \<Rightarrow> Server" where
  "run_001 evs = fold handle_001 evs initialServer"

section \<open>Completion\<close>

datatype CompletionItemKind = Keyword | Field

record CompletionItem =
  label :: string
  kind :: CompletionItemKind
  detail :: string
  documentation :: string

record CompletionList =
  isIncomplete :: bool
  items :: "CompletionItem list"

definition keywordItems :: "CompletionItem list" where
  "keywordItems =
     [\<lparr> label = ''INDEX'', kind = Keyword, detail = ''INDEX statement'',
        documentation = ''Specify the index to query from'' \<rparr>,
      \<lparr> label = ''FILTER'', kind = Keyword, detail = ''FILTER operation'',
        documentation = ''Filter and transform the results'' \<rparr>,
      \<lparr> label = ''MAP'', kind = Keyword, detail = ''MAP function'',
        documentation = ''Transform data using a mapping expression'' \<rparr>,
      \<lparr> label = ''AS'', kind = Keyword, detail = ''AS clause'',
        documentation = ''Assign an alias to the result set'' \<rparr>,
      \<lparr> label = ''SQL'', kind = Keyword, detail = ''SQL operation'',
        documentation = ''Perform SQL operations on the data'' \<rparr>,
      \<lparr> label = ''JOIN'', kind = Keyword, detail = ''JOIN function'',
        documentation = ''Join two result sets based on conditions'' \<rparr>,
      \<lparr> label = ''NOT'', kind = Keyword, detail = ''NOT operator'',
        documentation = ''Negate a condition'' \<rparr>]"

definition fieldPaths :: "string list" where
  "fieldPaths =
     [''winlog.event_id'', ''winlog.event_data.ProcessName'', ''host.hostname'',
      ''process.executable'']"

definition fieldItems :: "CompletionItem list" where
  "fieldItems =
     map (\<lambda>field. \<lparr> label = field, kind = Field, detail = ''Field'',
                     documentation = ''Field path: '' @ field \<rparr>) fieldPaths"

definition completion :: "(string \<rightharpoonup> TextDocument) \<Rightarrow> string \<Rightarrow> Position \<Rightarrow> CompletionList" where
  "completion documents u position =
     (case documents u of
        None \<Rightarrow> \<lparr> isIncomplete = False, items = [] \<rparr>
      | Some document \<Rightarrow> \<lparr> isIncomplete = False, items = keywordItems @ fieldItems \<rparr>)"

section \<open>Regular expressions of the source\<close>

definition echoKeywords :: "string list" where
  "echoKeywords = [''INDEX'', ''FILTER'', ''MAP'', ''AS'', ''SQL'', ''JOIN'', ''NOT'']"

text \<open>
  \<^verbatim>\<open>\b\<close> holds at a position when exactly one of the character before it and the
  character after it is a word character; a missing character counts as a non-word one.
  The scanners carry whether the previous character is a word character.
\<close>

definition wordBoundary :: "bool \<Rightarrow> string \<Rightarrow> bool" where
  "wordBoundary prevWord rest = (prevWord \<noteq> (case rest of [] \<Rightarrow> False | c # _ \<Rightarrow> isWord c))"

text \<open>
  One alternative of \<^verbatim>\<open>\b(A|B|...)\b\<close> at the current position, followed by the closing
  \<^verbatim>\<open>\b\<close>. With the flag \<^verbatim>\<open>i\<close> characters are compared by their canonical forms.
\<close>

definition matchAlternative :: "bool \<Rightarrow> string \<Rightarrow> string \<Rightarrow> string option" where
  "matchAlternative ignoreCase alt s =
     (let m = take (length alt) s in
      if length alt \<le> length s
         \<and> (if ignoreCase then map toUpperChar m = map toUpperChar alt else m = alt)
         \<and> wordBoundary (isWord (last m)) (drop (length alt) s)
      then Some m else None)"

text \<open>The alternatives are tried from left to right; the first that succeeds is the match.\<close>

fun firstAlternative :: "bool \<Rightarrow> string list \<Rightarrow> string \<Rightarrow> string option" where
  "firstAlternative ignoreCase [] s = None"
| "firstAlternative ignoreCase (alt # alts) s =
     (case matchAlternative ignoreCase alt s of
        Some m \<Rightarrow> Some m
      | None \<Rightarrow> firstAlternative ignoreCase alts s)"

definition matchAt :: "bool \<Rightarrow> string list \<Rightarrow> bool \<Rightarrow> string \<Rightarrow> string option" where
  "matchAt ignoreCase alts prevWord s =
     (if wordBoundary prevWord s then firstAlternative ignoreCase alts s else None)"

text \<open>
  \<^verbatim>\<open>line.match(/\b(A|B|...)\b/g)\<close>: the matches from left to right; after a match the scan
  goes on behind it (the alternatives of the source are not empty, so a match \<open>m\<close> of
  \<open>c # cs\<close> leaves \<open>drop (length m - 1) cs\<close>).
\<close>

fun matchAll :: "bool \<Rightarrow> string list \<Rightarrow> bool \<Rightarrow> string \<Rightarrow> string list" where
  "matchAll ignoreCase alts prevWord [] = []"
| "matchAll ignoreCase alts prevWord (c # cs) =
     (case matchAt ignoreCase alts prevWord (c # cs) of
        Some m \<Rightarrow> m # matchAll ignoreCase alts (isWord (last m)) (drop (length m - 1) cs)
      | None \<Rightarrow> matchAll ignoreCase alts (isWord c) cs)"

text \<open>\<^verbatim>\<open>line.replace(/\b(INDEX|...|NOT)\b/gi, match => match.toUpperCase())\<close>.\<close>

fun replaceKeywords :: "bool \<Rightarrow> string \<Rightarrow> string" where
  "replaceKeywords prevWord [] = []"
| "replaceKeywords prevWord (c # cs) =
     (case matchAt True echoKeywords prevWord (c # cs) of
        Some m \<Rightarrow> toUpperCase m @ replaceKeywords (isWord (last m)) (drop (length m - 1) cs)
      | None \<Rightarrow> c # replaceKeywords (isWord c) cs)"

text \<open>
  The matches of \<^verbatim>\<open>/\b\w+\b/g\<close> with their start index, as the loop over
  \<^verbatim>\<open>wordPattern.exec(text)\<close> meets them: \<^verbatim>\<open>\w+\<close> is greedy, so a match is a maximal run of
  word characters.
\<close>

function wordMatches :: "nat \<Rightarrow> bool \<Rightarrow> string \<Rightarrow> (nat \<times> string) list" where
  "wordMatches i prevWord [] = []"
| "wordMatches i prevWord (c # cs) =
     (if wordBoundary prevWord (c # cs) \<and> isWord c
      then (i, c # takeWhile isWord cs)
             # wordMatches (i + length (c # takeWhile isWord cs)) True (dropWhile isWord cs)
      else wordMatches (Suc i) (isWord c) cs)"
  by pat_completeness auto
termination
  by (relation "measure (\<lambda>(i, p, s). length s)") (auto simp: less_Suc_eq_le length_dropWhile_le)

section \<open>Hover\<close>

definition getWordAtOffset :: "string \<Rightarrow> nat \<Rightarrow> string option" where
  "getWordAtOffset text offset =
     (case find (\<lambda>(idx, m). offset \<ge> idx \<and> offset \<le> idx + length m)
             (wordMatches 0 False text) of
        None \<Rightarrow> None
      | Some (idx, m) \<Rightarrow> Some m)"

record Hover =
  contents :: "string list"

text \<open>
  \<^verbatim>\<open>hover\<close>: the \<^verbatim>\<open>switch\<close> has no default case, so an unrecognized word leaves the
  \<^verbatim>\<open>if (word)\<close> block and reaches the final \<^verbatim>\<open>return\<close>, as a missing word does.
\<close>

definition hover :: "(string \<rightharpoonup> TextDocument) \<Rightarrow> string \<Rightarrow> Position \<Rightarrow> Hover option" where
  "hover documents u position =
     (case documents u of
        None \<Rightarrow> None
      | Some document \<Rightarrow>
          (let offset = offsetAt document position;
               text = getText document;
               word = getWordAtOffset text offset;
               fallback = Some \<lparr> contents = [''Echo Query Language''] \<rparr>
           in case word of
                None \<Rightarrow> fallback
              | Some w \<Rightarrow>
                  (let up = toUpperCase w in
                   if up = ''INDEX'' then
                     Some \<lparr> contents = [''INDEX statement'', ''Specifies the index to query from''] \<rparr>
                   else if up = ''FILTER'' then
                     Some \<lparr> contents = [''FILTER operation'', ''Filters and transforms the result set''] \<rparr>
                   else if up = ''MAP'' then
                     Some \<lparr> contents = [''MAP function'', ''Transforms data using a mapping expression''] \<rparr>
                   else if up = ''AS'' then
                     Some \<lparr> contents = [''AS clause'', ''Assigns an alias to the result set''] \<rparr>
                   else if up = ''SQL'' then
                     Some \<lparr> contents = [''SQL operation'', ''Performs SQL operations on the data''] \<rparr>
                   else if up = ''JOIN'' then
                     Some \<lparr> contents = [''JOIN function'', ''Joins two result sets based on conditions''] \<rparr>
                   else if up = ''NOT'' then
                     Some \<lparr> contents = [''NOT operator'', ''Negates a condition''] \<rparr>
                   else fallback)))"

section \<open>Document symbols\<close>

record Location =
  loc_uri :: string
  loc_range :: Range

record SymbolInformation =
  name :: string
  symbolKind :: nat
  location :: Location

text \<open>
  The field \<^verbatim>\<open>kind\<close> of a \<^verbatim>\<open>SymbolInformation\<close> is a member of the enumeration
  \<^verbatim>\<open>SymbolKind\<close> of the language-server protocol, whose members are numbered from 1 in
  this order. The enumeration has no member \<^verbatim>\<open>Keyword\<close>; that name belongs to
  \<^verbatim>\<open>CompletionItemKind\<close>, where it has the number 14.
\<close>

definition symbolKindNames :: "string list" where
  "symbolKindNames =
     [''File'', ''Module'', ''Namespace'', ''Package'', ''Class'', ''Method'', ''Property'',
      ''Field'', ''Constructor'', ''Enum'', ''Interface'', ''Function'', ''Variable'',
      ''Constant'', ''String'', ''Number'', ''Boolean'', ''Array'', ''Object'', ''Key'',
      ''Null'', ''EnumMember'', ''Struct'', ''Event'', ''Operator'', ''TypeParameter'']"

definition symbolKindName :: "nat \<Rightarrow> string option" where
  "symbolKindName k =
     (if 1 \<le> k \<and> k \<le> length symbolKindNames then Some (symbolKindNames ! (k - 1)) else None)"

text \<open>
  The source writes the two kinds as the numbers 14 and 7, with the comments
  \<^verbatim>\<open>// Keyword\<close> and \<^verbatim>\<open>// Variable\<close>.
\<close>

definition mkSymbol :: "nat \<Rightarrow> string \<Rightarrow> nat \<Rightarrow> string \<Rightarrow> string \<Rightarrow> SymbolInformation" where
  "mkSymbol k u i ln m =
     \<lparr> name = m,
       symbolKind = k,
       location =
         \<lparr> loc_uri = u,
           loc_range =
             \<lparr> start = \<lparr> line = i, character = indexOf ln m \<rparr>,
               end_pos = \<lparr> line = i, character = indexOf ln m + int (length m) \<rparr> \<rparr> \<rparr> \<rparr>"

definition lineSymbols :: "string \<Rightarrow> nat \<Rightarrow> string \<Rightarrow> SymbolInformation list" where
  "lineSymbols u i ln =
     map (mkSymbol 14 u i ln) (matchAll True echoKeywords False ln)
     @ map (mkSymbol 7 u i ln) (matchAll False fieldPaths False ln)"

fun forEach_symbols :: "(nat \<Rightarrow> string \<Rightarrow> SymbolInformation list) \<Rightarrow> nat \<Rightarrow> string list \<Rightarrow> SymbolInformation list" where
  "forEach_symbols f i [] = []"
| "forEach_symbols f i (l # ls) = f i l @ forEach_symbols f (Suc i) ls"

definition findDocumentSymbols :: "(string \<rightharpoonup> TextDocument) \<Rightarrow> string \<Rightarrow> SymbolInformation list" where
  "findDocumentSymbols documents u =
     (case documents u of
        None \<Rightarrow> []
      | Some document \<Rightarrow>
          forEach_symbols (lineSymbols (uri document)) 0
            (split_char CHR 0x0A (getText document)))"

section \<open>Range formatting\<close>

text \<open>The character class \<^verbatim>\<open>[,(){}]\<close>.\<close>

definition isPunctuation :: "char \<Rightarrow> bool" where
  "isPunctuation c = (c \<in> set '',(){}'')"

text \<open>\<^verbatim>\<open>.replace(/([,(){}])/g, '$1 ')\<close>.\<close>

definition spaceAfterPunctuation :: "string \<Rightarrow> string" where
  "spaceAfterPunctuation s =
     concat (map (\<lambda>c. if isPunctuation c then [c, CHR '' ''] else [c]) s)"

text \<open>\<^verbatim>\<open>.replace(/\s+/g, ' ')\<close>.\<close>

function collapseWhitespace :: "string \<Rightarrow> string" where
  "collapseWhitespace [] = []"
| "collapseWhitespace (c # cs) =
     (if isSpace c then CHR '' '' # collapseWhitespace (dropWhile isSpace cs)
      else c # collapseWhitespace cs)"
  by pat_completeness auto
termination
  by (relation "measure length") (auto simp: less_Suc_eq_le length_dropWhile_le)

definition formatLine :: "string \<Rightarrow> string" where
  "formatLine ln = trim (collapseWhitespace (spaceAfterPunctuation (replaceKeywords False ln)))"

definition formatText :: "string \<Rightarrow> string" where
  "formatText text = join [CHR 0x0A] (map formatLine (split_char CHR 0x0A text))"

record TextEdit =
  edit_range :: Range
  newText :: string

definition format :: "(string \<rightharpoonup> TextDocument) \<Rightarrow> string \<Rightarrow> Range \<Rightarrow> TextEdit list" where
  "format documents u rng =
     (case documents u of
        None \<Rightarrow> []
      | Some document \<Rightarrow>
          [\<lparr> edit_range = rng, newText = formatText (getTextIn document rng) \<rparr>])"

section \<open>The invariant of the timeouts\<close>

text \<open>
  Every timeout alive in the runtime is the one that \<^verbatim>\<open>pendingValidationRequests\<close> records
  for the URI of its document, and handles are not reused.
\<close>

definition timersTracked :: "Server \<Rightarrow> bool" where
  "timersTracked sv =
     (distinct (map handle (timeouts sv))
      \<and> (\<forall>t \<in> set (timeouts sv).
            pendingValidationRequests sv (uri (callbackDocument t)) = Some (handle t)
            \<and> handle t < nextHandle sv))"

section \<open>Notions of the specification\<close>

text \<open>
  The whitespace-delimited tokens of a line, and the statement keyword: the first
  whitespace-delimited token, in upper case. Both follow the words of the specification
  and not a function of the source.
\<close>

function whitespaceTokens :: "string \<Rightarrow> string list" where
  "whitespaceTokens s =
     (case dropWhile isSpace s of
        [] \<Rightarrow> []
      | c # cs \<Rightarrow> (c # takeWhile (\<lambda>x. \<not> isSpace x) cs)
                    # whitespaceTokens (dropWhile (\<lambda>x. \<not> isSpace x) cs))"
  by pat_completeness auto
termination
proof (relation "measure length")
  fix s :: string and c cs
  assume "dropWhile isSpace s = c # cs"
  then have "Suc (length cs) \<le> length s"
    by (metis length_Cons length_dropWhile_le)
  moreover have "length (dropWhile (\<lambda>x. \<not> isSpace x) cs) \<le> length cs"
    by (rule length_dropWhile_le)
  ultimately show "(dropWhile (\<lambda>x. \<not> isSpace x) cs, s) \<in> measure length" by simp
qed simp

declare whitespaceTokens.simps [simp del]

definition statementKeyword :: "string \<Rightarrow> string" where
  "statementKeyword ln = toUpperCase (takeWhile (\<lambda>x. \<not> isSpace x) (dropWhile isSpace ln))"



text \<open>
  The occurrences of a set of alternatives in a line: at every position of the line, from
  left to right, the text that stands there between two word boundaries and is one of the
  alternatives (up to letter case when \<open>ignoreCase\<close> holds). The first occurrence of a
  text in a line is the least position at which the text stands, or \<open>-1\<close>.
\<close>

fun occurrences :: "bool \<Rightarrow> string list \<Rightarrow> bool \<Rightarrow> string \<Rightarrow> string list" where
  "occurrences ignoreCase alts prevWord [] = []"
| "occurrences ignoreCase alts prevWord (c # cs) =
     (case matchAt ignoreCase alts prevWord (c # cs) of Some m \<Rightarrow> [m] | None \<Rightarrow> [])
     @ occurrences ignoreCase alts (isWord c) cs"

definition firstOccurrence :: "string \<Rightarrow> string \<Rightarrow> int" where
  "firstOccurrence s pat =
     (case find (\<lambda>p. take (length pat) (drop p s) = pat) [0 ..< Suc (length s)] of
        None \<Rightarrow> - 1
      | Some p \<Rightarrow> int p)"

text \<open>
  Upper-casing of keywords as the specification words it: every maximal run of word
  characters whose upper-case form is one of the seven keywords is replaced by that form.
\<close>

definition upperKeyword :: "string \<Rightarrow> string" where
  "upperKeyword w = (if toUpperCase w \<in> set echoKeywords then toUpperCase w else w)"

function upperWords :: "string \<Rightarrow> string" where
  "upperWords [] = []"
| "upperWords (c # cs) =
     (if isWord c
      then upperKeyword (c # takeWhile isWord cs) @ upperWords (dropWhile isWord cs)
      else c # upperWords cs)"
  by pat_completeness auto
termination
  by (relation "measure length") (auto simp: less_Suc_eq_le length_dropWhile_le)

text \<open>
  The three spacing steps of the formatter taken together, and the property that every
  character of the class \<^verbatim>\<open>[,(){}]\<close> is followed by a whitespace character.
\<close>

definition normalizeSpacing :: "string \<Rightarrow> string" where
  "normalizeSpacing s = trim (collapseWhitespace (spaceAfterPunctuation s))"

fun punctFollowed :: "string \<Rightarrow> bool" where
  "punctFollowed [] = True"
| "punctFollowed [c] = (\<not> isPunctuation c)"
| "punctFollowed (c # d # cs) = ((isPunctuation c \<longrightarrow> isSpace d) \<and> punctFollowed (d # cs))"

text \<open>The content that \<^verbatim>\<open>hover\<close> has for each of the seven keywords, as one table.\<close>

definition keywordHover :: "string \<Rightarrow> Hover" where
  "keywordHover k =
     (if k = ''INDEX'' then \<lparr> contents = [''INDEX statement'', ''Specifies the index to query from''] \<rparr>
      else if k = ''FILTER'' then \<lparr> contents = [''FILTER operation'', ''Filters and transforms the result set''] \<rparr>
      else if k = ''MAP'' then \<lparr> contents = [''MAP function'', ''Transforms data using a mapping expression''] \<rparr>
      else if k = ''AS'' then \<lparr> contents = [''AS clause'', ''Assigns an alias to the result set''] \<rparr>
      else if k = ''SQL'' then \<lparr> contents = [''SQL operation'', ''Performs SQL operations on the data''] \<rparr>
      else if k = ''JOIN'' then \<lparr> contents = [''JOIN function'', ''Joins two result sets based on conditions''] \<rparr>
      else \<lparr> contents = [''NOT operator'', ''Negates a condition''] \<rparr>)"

section \<open>A document of one line\<close>

text \<open>
  The examples use documents of a single line, for which the methods of the library are
  plain: the offset of a position on line 0 is its column, cut at the end of the text,
  and the text of a range on that line runs between the two offsets.
\<close>

definition oneLineDocument :: "string \<Rightarrow> string \<Rightarrow> TextDocument" where
  "oneLineDocument u t =
     \<lparr> uri = u,
       getText = t,
       getTextIn = (\<lambda>r. take (min (nat (character (end_pos r))) (length t)
                             - min (nat (character (start r))) (length t))
                         (drop (min (nat (character (start r))) (length t)) t)),
       offsetAt = (\<lambda>p. min (nat (character p)) (length t)) \<rparr>"

section \<open>Properties of the text primitives\<close>

lemma toUpperChar_cases: "toUpperChar c = c \<or> c \<in> set lowerCaseUnits"
proof (cases "map_of (zip lowerCaseUnits upperCaseUnits) c")
  case None
  then show ?thesis by (simp add: toUpperChar_def)
next
  case (Some u)
  then have "(c, u) \<in> set (zip lowerCaseUnits upperCaseUnits)" by (rule map_of_SomeD)
  then have "c \<in> set lowerCaseUnits" by (rule set_zip_leftD)
  then show ?thesis ..
qed

lemma lowerCaseUnits_facts:
  "\<forall>x \<in> set lowerCaseUnits.
     isWord (toUpperChar x) = isWord x \<and> toUpperChar (toUpperChar x) = toUpperChar x
     \<and> toUpperChar x \<noteq> CHR 0xDF \<and> \<not> isSpace x"
  by code_simp

lemma isWord_toUpperChar: "isWord (toUpperChar c) = isWord c"
  using toUpperChar_cases[of c] lowerCaseUnits_facts by metis

lemma toUpperChar_idem: "toUpperChar (toUpperChar c) = toUpperChar c"
  using toUpperChar_cases[of c] lowerCaseUnits_facts by metis

lemma toUpperChar_not_sharp: "c \<noteq> CHR 0xDF \<Longrightarrow> toUpperChar c \<noteq> CHR 0xDF"
  using toUpperChar_cases[of c] lowerCaseUnits_facts by metis

lemma toUpperChar_not_space: "isSpace c \<Longrightarrow> toUpperChar c = c"
  using toUpperChar_cases[of c] lowerCaseUnits_facts by metis

lemma word_not_sharp: "isWord c \<Longrightarrow> c \<noteq> CHR 0xDF"
  by (auto simp: isWord_def)

lemma space_not_sharp: "isSpace c \<Longrightarrow> c \<noteq> CHR 0xDF"
  by (auto simp: isSpace_def)

lemma toUpperCase_Nil [simp]: "toUpperCase [] = []"
  by (simp add: toUpperCase_def)

lemma toUpperCase_Cons:
  "toUpperCase (c # cs) = (if c = CHR 0xDF then ''SS'' else [toUpperChar c]) @ toUpperCase cs"
  by (simp add: toUpperCase_def)

lemma toUpperCase_append: "toUpperCase (a @ b) = toUpperCase a @ toUpperCase b"
  by (simp add: toUpperCase_def)

lemma toUpperCase_eq_Nil [simp]: "toUpperCase s = [] \<longleftrightarrow> s = []"
  by (cases s) (simp_all add: toUpperCase_Cons)

lemma toUpperCase_map: "CHR 0xDF \<notin> set s \<Longrightarrow> toUpperCase s = map toUpperChar s"
  by (induction s) (auto simp: toUpperCase_Cons)

lemma toUpperCase_word: "\<forall>c \<in> set w. isWord c \<Longrightarrow> toUpperCase w = map toUpperChar w"
  by (rule toUpperCase_map) (auto dest: word_not_sharp)

lemma toUpperCase_sharp_count:
  "CHR 0xDF \<in> set s \<Longrightarrow> 2 \<le> length (filter (\<lambda>c. c = CHR ''S'') (toUpperCase s))"
  by (induction s) (auto simp: toUpperCase_Cons)

lemma toUpperCase_idem: "toUpperCase (toUpperCase s) = toUpperCase s"
proof (induction s)
  case Nil
  show ?case by simp
next
  case (Cons c cs)
  have "toUpperCase (if c = CHR 0xDF then ''SS'' else [toUpperChar c])
        = (if c = CHR 0xDF then ''SS'' else [toUpperChar c])"
  proof (cases "c = CHR 0xDF")
    case True
    then show ?thesis by (simp add: toUpperCase_Cons toUpperChar_def lowerCaseUnits_def upperCaseUnits_def)
  next
    case False
    then show ?thesis by (simp add: toUpperCase_Cons toUpperChar_not_sharp toUpperChar_idem)
  qed
  with Cons show ?case by (simp only: toUpperCase_Cons[of c cs] toUpperCase_append)
qed

lemma keyword_no_sharp:
  assumes "toUpperCase w \<in> set echoKeywords"
  shows "CHR 0xDF \<notin> set w"
proof
  assume "CHR 0xDF \<in> set w"
  then have "2 \<le> length (filter (\<lambda>c. c = CHR ''S'') (toUpperCase w))"
    by (rule toUpperCase_sharp_count)
  moreover have "\<forall>k \<in> set echoKeywords. length (filter (\<lambda>c. c = CHR ''S'') k) \<le> 1"
    by (simp add: echoKeywords_def)
  ultimately show False using assms by fastforce
qed

lemma toUpperCase_INDEX:
  assumes "toUpperCase s = ''INDEX''"
  shows "CHR 0xDF \<notin> set s" "length s = 5"
proof -
  show n: "CHR 0xDF \<notin> set s"
  proof
    assume "CHR 0xDF \<in> set s"
    then have "2 \<le> length (filter (\<lambda>c. c = CHR ''S'') (toUpperCase s))"
      by (rule toUpperCase_sharp_count)
    then show False by (simp add: assms)
  qed
  then have "toUpperCase s = map toUpperChar s" by (rule toUpperCase_map)
  then have "length (toUpperCase s) = length s" by simp
  then show "length s = 5" by (simp add: assms)
qed

section \<open>Properties of the validators\<close>

lemma split_char_nonempty: "split_char sep s \<noteq> []"
  by (induction s) (auto split: list.splits)

lemma split_ws_nonempty: "split_ws s \<noteq> []"
  by (induction s rule: split_ws.induct) (auto split: list.splits)

lemma mkDiagnostic_line [simp]:
  "line (start (range (mkDiagnostic sev i e m))) = i"
  "line (end_pos (range (mkDiagnostic sev i e m))) = i"
  "character (start (range (mkDiagnostic sev i e m))) = 0"
  "character (end_pos (range (mkDiagnostic sev i e m))) = int e"
  "severity (mkDiagnostic sev i e m) = sev"
  "message (mkDiagnostic sev i e m) = m"
  "source (mkDiagnostic sev i e m) = ''Echo Query''"
  by (simp_all add: mkDiagnostic_def)

lemma msgs_distinct:
  "distinct [msgKeyword, msgIndex, msgFilter, msgMap, msgQuotes]"
  by (simp add: msgKeyword_def msgIndex_def msgFilter_def msgMap_def msgQuotes_def validStartKeywords_def)

lemma validateLine_003_cases:
  assumes "d \<in> set (validateLine_003 i ln)"
  shows "\<not> (trim ln = [] \<or> startsWith (trim ln) ''//'') \<and>
         (d = mkDiagnostic 1 i (length (firstWord_003 (trim ln))) msgKeyword
        \<or> d = mkDiagnostic 1 i (length ln) msgIndex
        \<or> d = mkDiagnostic 1 i (length ln) msgFilter
        \<or> d = mkDiagnostic 2 i (length ln) msgMap
        \<or> d = mkDiagnostic 1 i (length ln) msgQuotes)"
  using assms by (auto simp: validateLine_003_def Let_def split: if_splits)

lemma validateLine_001_cases:
  assumes "d \<in> set (validateLine_001 i ln)"
  shows "\<not> (trim ln = [] \<or> startsWith (trim ln) ''//'') \<and>
         (d = mkDiagnostic 1 i (length (firstWord_001 (trim ln))) msgKeyword
        \<or> d = mkDiagnostic 1 i (length (trim ln)) msgIndex
        \<or> d = mkDiagnostic 1 i (length (trim ln)) msgFilter
        \<or> d = mkDiagnostic 2 i (length (trim ln)) msgMap
        \<or> d = mkDiagnostic 1 i (length (trim ln)) msgQuotes)"
  using assms by (auto simp: validateLine_001_def Let_def split: if_splits)

lemma forEach_lines_mem:
  "d \<in> set (forEach_lines f k ls) \<longleftrightarrow> (\<exists>j < length ls. d \<in> set (f (k + j) (ls ! j)))"
proof (induction ls arbitrary: k)
  case Nil
  then show ?case by simp
next
  case (Cons l ls)
  show ?case
  proof
    assume "d \<in> set (forEach_lines f k (l # ls))"
    then consider "d \<in> set (f k l)" | "d \<in> set (forEach_lines f (Suc k) ls)" by auto
    then show "\<exists>j<length (l # ls). d \<in> set (f (k + j) ((l # ls) ! j))"
    proof cases
      case 1
      then show ?thesis by (intro exI[of _ 0]) simp
    next
      case 2
      then obtain j where "j < length ls" "d \<in> set (f (Suc k + j) (ls ! j))"
        using Cons.IH by blast
      then show ?thesis by (intro exI[of _ "Suc j"]) simp
    qed
  next
    assume "\<exists>j<length (l # ls). d \<in> set (f (k + j) ((l # ls) ! j))"
    then obtain j where j: "j < length (l # ls)" "d \<in> set (f (k + j) ((l # ls) ! j))" by blast
    show "d \<in> set (forEach_lines f k (l # ls))"
    proof (cases j)
      case 0
      with j show ?thesis by simp
    next
      case (Suc j')
      with j have "j' < length ls" "d \<in> set (f (Suc k + j') (ls ! j'))" by simp_all
      then have "d \<in> set (forEach_lines f (Suc k) ls)" using Cons.IH by blast
      then show ?thesis by simp
    qed
  qed
qed

lemma forEach_lines_filter:
  assumes "\<And>j l d. d \<in> set (f j l) \<Longrightarrow> line (start (range d)) = j"
  shows "filter (\<lambda>d. line (start (range d)) = i) (forEach_lines f k ls) =
           (if k \<le> i \<and> i < k + length ls then f i (ls ! (i - k)) else [])"
proof (induction ls arbitrary: k)
  case Nil
  then show ?case by auto
next
  case (Cons l ls)
  have here: "filter (\<lambda>d. line (start (range d)) = i) (f k l) = (if i = k then f k l else [])"
    using assms[of _ k l] by (auto simp: filter_empty_conv intro: filter_True)
  show ?case
  proof (cases "i = k")
    case True
    show ?thesis using here Cons.IH[of "Suc k"] unfolding True by simp
  next
    case False
    have "(l # ls) ! (i - k) = ls ! (i - Suc k)" if "Suc k \<le> i"
      using that by (simp add: nth_Cons split: nat.splits) (metis Suc_diff_Suc Suc_le_lessD nat.inject)
    with False show ?thesis using here Cons.IH[of "Suc k"] by auto
  qed
qed


lemma validateLine_003_line: "d \<in> set (validateLine_003 j l) \<Longrightarrow> line (start (range d)) = j"
  by (drule validateLine_003_cases) auto

lemma validateLine_001_line: "d \<in> set (validateLine_001 j l) \<Longrightarrow> line (start (range d)) = j"
  by (drule validateLine_001_cases) auto

lemma diagnostics_003_at_line:
  "filter (\<lambda>d. line (start (range d)) = i) (diagnostics_003 text) =
     (if i < length (split_char CHR 0x0A text)
      then validateLine_003 i (split_char CHR 0x0A text ! i) else [])"
  unfolding diagnostics_003_def
  by (subst forEach_lines_filter) (auto dest: validateLine_003_line)

lemma diagnostics_001_at_line:
  "filter (\<lambda>d. line (start (range d)) = i) (diagnostics_001 text) =
     (if i < length (split_char CHR 0x0A text)
      then validateLine_001 i (split_char CHR 0x0A text ! i) else [])"
  unfolding diagnostics_001_def
  by (subst forEach_lines_filter) (auto dest: validateLine_001_line)

lemma filter_dropWhile_disjoint:
  "(\<And>x. Q x \<Longrightarrow> \<not> P x) \<Longrightarrow> filter P (dropWhile Q xs) = filter P xs"
  by (induction xs) auto

lemma quoteCount_trim: "quoteCount (trim ln) = quoteCount ln"
proof -
  have q: "\<And>x. isSpace x \<Longrightarrow> \<not> x = CHR 0x22" by (auto simp: isSpace_def)
  have "length (filter (\<lambda>c. c = CHR 0x22) (rev (dropWhile isSpace (rev (dropWhile isSpace ln)))))
        = length (filter (\<lambda>c. c = CHR 0x22) (dropWhile isSpace (rev (dropWhile isSpace ln))))"
    by (simp add: rev_filter[symmetric] del: rev_filter)
  also have "\<dots> = length (filter (\<lambda>c. c = CHR 0x22) (rev (dropWhile isSpace ln)))"
    by (subst filter_dropWhile_disjoint) (use q in auto)
  also have "\<dots> = length (filter (\<lambda>c. c = CHR 0x22) (dropWhile isSpace ln))"
    by (simp add: rev_filter[symmetric] del: rev_filter)
  also have "\<dots> = length (filter (\<lambda>c. c = CHR 0x22) ln)"
    by (subst filter_dropWhile_disjoint) (use q in auto)
  finally show ?thesis by (simp add: quoteCount_def trim_def)
qed


subsection \<open>Blank lines and comments\<close>

text \<open>
  Claim C9. For every text consisting only of blank lines and comment lines (lines whose
  trimmed form starts with \<^verbatim>\<open>//\<close>), validation returns an empty diagnostic list. This
  holds for the validator of \<^verbatim>\<open>part_003\<close> and for that of \<^verbatim>\<open>part_001\<close>.
\<close>

theorem C9_blank_and_comment_lines:
  assumes "\<forall>ln \<in> set (split_char CHR 0x0A text). trim ln = [] \<or> startsWith (trim ln) ''//''"
  shows "diagnostics_003 text = [] \<and> diagnostics_001 text = []"
proof -
  have "d \<notin> set (diagnostics_003 text)" for d
    unfolding diagnostics_003_def forEach_lines_mem
    using assms by (auto dest!: validateLine_003_cases)
  moreover have "d \<notin> set (diagnostics_001 text)" for d
    unfolding diagnostics_001_def forEach_lines_mem
    using assms by (auto dest!: validateLine_001_cases)
  ultimately show ?thesis by (simp add: set_empty[symmetric] set_eq_iff del: set_empty)
qed


text \<open>
  A text of a comment, a line of a blank, a no-break space and a tab, and a comment after
  a no-break space.
\<close>

theorem C9_witness:
  "diagnostics_003 (''// note'' @ [CHR 0x0A, CHR '' '', CHR 0xA0, CHR 0x09, CHR 0x0A, CHR 0xA0] @ ''//x'') = []
   \<and> diagnostics_001 (''// note'' @ [CHR 0x0A, CHR '' '', CHR 0xA0, CHR 0x09, CHR 0x0A, CHR 0xA0] @ ''//x'') = []"
proof -
  have h: "\<forall>ln \<in> set (split_char CHR 0x0A (''// note'' @ [CHR 0x0A, CHR '' '', CHR 0xA0, CHR 0x09, CHR 0x0A, CHR 0xA0] @ ''//x'')).
       trim ln = [] \<or> startsWith (trim ln) ''//''"
    by (simp add: trim_def isSpace_def)
  show ?thesis using C9_blank_and_comment_lines [OF h] .
qed

subsection \<open>Shape of every diagnostic\<close>

text \<open>
  Claim C10. Every diagnostic that validation emits, in either validator, lies on one
  line, which is the index of the line that produced it; it starts at column 0, which
  is at most its end column; its source is \<^verbatim>\<open>Echo Query\<close>; its severity is 2 (Warning)
  when it is the diagnostic of the MAP rule and 1 (Error) otherwise.
\<close>

theorem C10_diagnostics_well_formed:
  assumes "d \<in> set (diagnostics_003 text) \<or> d \<in> set (diagnostics_001 text)"
  shows "line (start (range d)) = line (end_pos (range d))
       \<and> line (start (range d)) < length (split_char CHR 0x0A text)
       \<and> (d \<in> set (validateLine_003 (line (start (range d)))
                        (split_char CHR 0x0A text ! line (start (range d))))
          \<or> d \<in> set (validateLine_001 (line (start (range d)))
                        (split_char CHR 0x0A text ! line (start (range d)))))
       \<and> character (start (range d)) = 0
       \<and> character (start (range d)) \<le> character (end_pos (range d))
       \<and> source d = ''Echo Query''
       \<and> severity d = (if message d = msgMap then 2 else 1)"
proof -
  from assms consider (a) j where "j < length (split_char CHR 0x0A text)"
      "d \<in> set (validateLine_003 j (split_char CHR 0x0A text ! j))"
    | (b) j where "j < length (split_char CHR 0x0A text)"
      "d \<in> set (validateLine_001 j (split_char CHR 0x0A text ! j))"
    unfolding diagnostics_003_def diagnostics_001_def forEach_lines_mem by auto
  then show ?thesis
  proof cases
    case a
    from validateLine_003_cases[OF a(2)] a msgs_distinct show ?thesis by auto
  next
    case b
    from validateLine_001_cases[OF b(2)] b msgs_distinct show ?thesis by auto
  qed
qed


text \<open>The warning that the line \<^verbatim>\<open>MAP foo\<close> gets.\<close>

theorem C10_witness:
  "mkDiagnostic 2 0 7 msgMap \<in> set (diagnostics_003 ''MAP foo'')
   \<and> line (start (range (mkDiagnostic 2 0 7 msgMap))) = 0
   \<and> line (end_pos (range (mkDiagnostic 2 0 7 msgMap))) = 0
   \<and> character (start (range (mkDiagnostic 2 0 7 msgMap))) = 0
   \<and> character (end_pos (range (mkDiagnostic 2 0 7 msgMap))) = 7
   \<and> source (mkDiagnostic 2 0 7 msgMap) = ''Echo Query''
   \<and> severity (mkDiagnostic 2 0 7 msgMap) = 2"
proof -
  have h: "mkDiagnostic 2 0 7 msgMap \<in> set (diagnostics_003 ''MAP foo'')"
    by (simp add: diagnostics_003_def validateLine_003_def firstWord_003_def trim_def isSpace_def
      toUpperCase_def toUpperChar_def lowerCaseUnits_def upperCaseUnits_def validStartKeywords_def hasCondition_def quoteCount_def Let_def)
  from C10_diagnostics_well_formed [of "mkDiagnostic 2 0 7 msgMap" "''MAP foo''"] h
  show ?thesis by simp
qed

lemma msgs_neq:
  "msgKeyword \<noteq> msgQuotes" "msgIndex \<noteq> msgQuotes" "msgFilter \<noteq> msgQuotes" "msgMap \<noteq> msgQuotes"
  "msgKeyword \<noteq> msgIndex" "msgFilter \<noteq> msgIndex" "msgMap \<noteq> msgIndex" "msgQuotes \<noteq> msgIndex"
  "msgIndex \<noteq> msgKeyword" "msgFilter \<noteq> msgKeyword" "msgMap \<noteq> msgKeyword" "msgQuotes \<noteq> msgKeyword"
  using msgs_distinct by auto

lemma filter_line_message:
  "filter (\<lambda>d. line (start (range d)) = i \<and> message d = m) ds =
     filter (\<lambda>d. message d = m) (filter (\<lambda>d. line (start (range d)) = i) ds)"
  by (simp add: conj_commute)

subsection \<open>Unmatched quotes\<close>

text \<open>
  Claim C5. In the validator of \<^verbatim>\<open>part_003\<close>, every line that is neither blank nor a
  comment and holds an odd number of double quotes gets exactly one diagnostic
  \<^verbatim>\<open>Unmatched quotes in line\<close>, an Error from column 0 to the length of the line, whatever
  its first word and whatever the other rules emit; the rules add up, and the line
  \<^verbatim>\<open>BADKEY "unterminated\<close> gets the unknown-keyword Error and the quote Error.
\<close>

theorem C5_unmatched_quotes:
  assumes "i < length (split_char CHR 0x0A text)"
    and "ln = split_char CHR 0x0A text ! i"
    and "\<not> (trim ln = [] \<or> startsWith (trim ln) ''//'')"
    and "odd (quoteCount ln)"
  shows "filter (\<lambda>d. line (start (range d)) = i \<and> message d = ''Unmatched quotes in line'')
           (diagnostics_003 text)
         = [\<lparr> severity = 1,
              range = \<lparr> start = \<lparr> line = i, character = 0 \<rparr>,
                        end_pos = \<lparr> line = i, character = int (length ln) \<rparr> \<rparr>,
              message = ''Unmatched quotes in line'',
              source = ''Echo Query'' \<rparr>]
       \<and> diagnostics_003 (''BADKEY '' @ [CHR 0x22] @ ''unterminated'')
         = [mkDiagnostic 1 0 6 ''Line must start with one of: INDEX, FILTER, MAP, AS, SQL, JOIN'',
            mkDiagnostic 1 0 20 ''Unmatched quotes in line'']"
proof -
  have odd': "quoteCount (trim ln) mod 2 \<noteq> 0"
    using assms(4) by (simp add: quoteCount_trim odd_iff_mod_2_eq_one)
  have "filter (\<lambda>d. message d = msgQuotes) (validateLine_003 i ln)
          = [mkDiagnostic 1 i (length ln) msgQuotes]"
    using assms(3) odd' by (simp add: validateLine_003_def Let_def msgs_neq)
  then have "filter (\<lambda>d. line (start (range d)) = i \<and> message d = msgQuotes) (diagnostics_003 text)
          = [mkDiagnostic 1 i (length ln) msgQuotes]"
    unfolding filter_line_message diagnostics_003_at_line using assms(1,2) by simp
  moreover have "diagnostics_003 (''BADKEY '' @ [CHR 0x22] @ ''unterminated'')
         = [mkDiagnostic 1 0 6 ''Line must start with one of: INDEX, FILTER, MAP, AS, SQL, JOIN'',
            mkDiagnostic 1 0 20 ''Unmatched quotes in line'']"
    by code_simp
  ultimately show ?thesis by (simp add: msgQuotes_def mkDiagnostic_def)
qed


text \<open>
  The second line of a text of two lines, with one quote, a no-break space and a blank
  before it and a no-break space after it.
\<close>

theorem C5_witness:
  "filter (\<lambda>d. line (start (range d)) = 1 \<and> message d = ''Unmatched quotes in line'')
           (diagnostics_003 (''INDEX users'' @ [CHR 0x0A] @ [CHR 0xA0] @ '' FILTER name = '' @ [CHR 0x22] @ ''bob'' @ [CHR 0xA0]))
         = [\<lparr> severity = 1,
              range = \<lparr> start = \<lparr> line = 1, character = 0 \<rparr>,
                        end_pos = \<lparr> line = 1, character = 21 \<rparr> \<rparr>,
              message = ''Unmatched quotes in line'',
              source = ''Echo Query'' \<rparr>]"
proof -
  let ?t = "''INDEX users'' @ [CHR 0x0A] @ [CHR 0xA0] @ '' FILTER name = '' @ [CHR 0x22] @ ''bob'' @ [CHR 0xA0]"
  let ?ln = "[CHR 0xA0] @ '' FILTER name = '' @ [CHR 0x22] @ ''bob'' @ [CHR 0xA0]"
  have 1: "1 < length (split_char CHR 0x0A ?t)" by simp
  have 2: "?ln = split_char CHR 0x0A ?t ! 1" by simp
  have 3: "\<not> (trim ?ln = [] \<or> startsWith (trim ?ln) ''//'')" by (simp add: trim_def isSpace_def)
  have 4: "odd (quoteCount ?ln)" by (simp add: quoteCount_def)
  from C5_unmatched_quotes [OF 1 2 3 4] show ?thesis by simp
qed


subsection \<open>Lines, tokens and trimming\<close>

lemma trim_decomp:
  obtains r where "dropWhile isSpace ln = trim ln @ r" "\<forall>c \<in> set r. isSpace c"
proof
  let ?x = "dropWhile isSpace ln"
  have "rev (rev ?x) = rev (takeWhile isSpace (rev ?x) @ dropWhile isSpace (rev ?x))"
    by (simp only: takeWhile_dropWhile_id)
  then show "?x = trim ln @ rev (takeWhile isSpace (rev ?x))"
    by (simp only: rev_append rev_rev_ident trim_def)
  show "\<forall>c \<in> set (rev (takeWhile isSpace (rev ?x))). isSpace c"
    by (auto dest: set_takeWhileD)
qed

lemma trim_ends:
  assumes "trim ln \<noteq> []"
  shows "\<not> isSpace (hd (trim ln))" "\<not> isSpace (last (trim ln))"
proof -
  obtain r where r: "dropWhile isSpace ln = trim ln @ r" by (rule trim_decomp)
  with assms have "hd (dropWhile isSpace ln) = hd (trim ln)" by simp
  moreover have "dropWhile isSpace ln \<noteq> []" using r assms by simp
  ultimately show "\<not> isSpace (hd (trim ln))" by (metis hd_dropWhile)
  have "dropWhile isSpace (rev (dropWhile isSpace ln)) \<noteq> []" using assms by (simp add: trim_def)
  then have "\<not> isSpace (hd (dropWhile isSpace (rev (dropWhile isSpace ln))))" by (rule hd_dropWhile)
  then show "\<not> isSpace (last (trim ln))"
    using assms by (simp add: trim_def last_rev)
qed

lemma takeWhile_append_none:
  "(\<And>y. y \<in> set r \<Longrightarrow> \<not> P y) \<Longrightarrow> takeWhile P (a @ r) = takeWhile P a"
  by (induction a) (auto simp: takeWhile_eq_Nil_iff)

lemma firstToken_trim:
  "takeWhile (\<lambda>x. \<not> isSpace x) (dropWhile isSpace ln) = takeWhile (\<lambda>x. \<not> isSpace x) (trim ln)"
proof -
  obtain r where r: "dropWhile isSpace ln = trim ln @ r" "\<forall>c \<in> set r. isSpace c" by (rule trim_decomp)
  show ?thesis unfolding r(1) by (rule takeWhile_append_none) (use r(2) in auto)
qed

lemma split_ws_unfold:
  "split_ws s = takeWhile (\<lambda>x. \<not> isSpace x) s
                 # (case dropWhile (\<lambda>x. \<not> isSpace x) s of
                      [] \<Rightarrow> []
                    | _ # r \<Rightarrow> split_ws (dropWhile isSpace r))"
  by (induction s) (auto split: list.splits)

lemma hd_split_ws: "hd (split_ws s) = takeWhile (\<lambda>x. \<not> isSpace x) s"
  by (subst split_ws_unfold) simp

lemma split_char_unfold:
  "split_char sep s = takeWhile (\<lambda>x. x \<noteq> sep) s
                 # (case dropWhile (\<lambda>x. x \<noteq> sep) s of
                      [] \<Rightarrow> []
                    | _ # r \<Rightarrow> split_char sep r)"
  by (induction s) (auto split: list.splits)

lemma hd_split_char: "hd (split_char sep s) = takeWhile (\<lambda>x. x \<noteq> sep) s"
  by (subst split_char_unfold) simp

lemma dropWhile_eq_ConsD:
  assumes "dropWhile P xs = y # ys"
  shows "\<not> P y" "y \<in> set xs"
proof -
  from assms have "dropWhile P xs \<noteq> []" by simp
  then have "\<not> P (hd (dropWhile P xs))" by (rule hd_dropWhile)
  with assms show "\<not> P y" by simp
  have "y \<in> set (dropWhile P xs)" using assms by simp
  then show "y \<in> set xs" by (rule set_dropWhileD)
qed

lemma length_split_char_lt2: "length (split_char sep s) < 2 \<longleftrightarrow> sep \<notin> set s"
proof (cases "dropWhile (\<lambda>x. x \<noteq> sep) s")
  case Nil
  then have "sep \<notin> set s" by (auto simp: dropWhile_eq_Nil_conv)
  moreover have "length (split_char sep s) < 2"
    by (subst split_char_unfold) (simp add: Nil)
  ultimately show ?thesis by simp
next
  case (Cons y ys)
  from dropWhile_eq_ConsD[OF Cons] have "sep \<in> set s" by simp
  moreover have "\<not> length (split_char sep s) < 2"
    using split_char_nonempty[of sep ys]
    by (subst split_char_unfold) (cases "split_char sep ys"; simp add: Cons)
  ultimately show ?thesis by simp
qed

lemma firstWord_001_keyword: "firstWord_001 (trim ln) = statementKeyword ln"
  by (simp add: firstWord_001_def statementKeyword_def hd_split_ws firstToken_trim)

lemma whitespaceTokens_Nil:
  "dropWhile isSpace s = [] \<Longrightarrow> whitespaceTokens s = []"
  by (subst whitespaceTokens.simps) (simp del: dropWhile_eq_Nil_conv)

lemma whitespaceTokens_Cons:
  "dropWhile isSpace s = c # cs \<Longrightarrow>
     whitespaceTokens s = (c # takeWhile (\<lambda>x. \<not> isSpace x) cs)
                            # whitespaceTokens (dropWhile (\<lambda>x. \<not> isSpace x) cs)"
  by (subst whitespaceTokens.simps) simp

lemma whitespaceTokens_Nil_iff: "whitespaceTokens s = [] \<longleftrightarrow> (\<forall>c \<in> set s. isSpace c)"
proof (cases "dropWhile isSpace s")
  case Nil
  then show ?thesis using whitespaceTokens_Nil[OF Nil] by (simp add: dropWhile_eq_Nil_conv)
next
  case (Cons c cs)
  from dropWhile_eq_ConsD[OF Cons] show ?thesis
    using whitespaceTokens_Cons[OF Cons] by auto
qed

lemma whitespaceTokens_dropWhile: "whitespaceTokens (dropWhile isSpace s) = whitespaceTokens s"
  by (subst (1 2) whitespaceTokens.simps) simp

lemma dropWhile_append_none:
  assumes "\<And>y. y \<in> set r \<Longrightarrow> \<not> P y"
  shows "dropWhile P (a @ r) = dropWhile P a @ r"
proof (cases "\<forall>x \<in> set a. P x")
  case True
  then have "dropWhile P (a @ r) = dropWhile P r" by (simp add: dropWhile_append2)
  also have "\<dots> = r" using assms by (cases r) auto
  finally show ?thesis using True by (simp add: dropWhile_eq_Nil_conv)
next
  case False
  then show ?thesis by (auto simp: dropWhile_append1)
qed

lemma whitespaceTokens_append_space:
  assumes "\<forall>c \<in> set r. isSpace c"
  shows "whitespaceTokens (a @ r) = whitespaceTokens a"
proof (induction a rule: whitespaceTokens.induct)
  case (1 s)
  show ?case
  proof (cases "dropWhile isSpace s")
    case Nil
    then have "\<forall>c \<in> set (s @ r). isSpace c" using assms by (auto simp: dropWhile_eq_Nil_conv)
    then have "whitespaceTokens (s @ r) = []" by (simp only: whitespaceTokens_Nil_iff)
    moreover have "whitespaceTokens s = []" by (rule whitespaceTokens_Nil[OF Nil])
    ultimately show ?thesis by simp
  next
    case (Cons c cs)
    have d: "dropWhile isSpace (s @ r) = c # (cs @ r)"
      using dropWhile_eq_ConsD[OF Cons] Cons
      by (subst dropWhile_append1[where x = c]) auto
    have t: "takeWhile (\<lambda>x. \<not> isSpace x) (cs @ r) = takeWhile (\<lambda>x. \<not> isSpace x) cs"
      by (rule takeWhile_append_none) (use assms in auto)
    have e: "dropWhile (\<lambda>x. \<not> isSpace x) (cs @ r) = dropWhile (\<lambda>x. \<not> isSpace x) cs @ r"
      by (rule dropWhile_append_none) (use assms in auto)
    show ?thesis
      by (simp add: whitespaceTokens_Cons[OF d] whitespaceTokens_Cons[OF Cons] t e "1.IH"[OF Cons])
  qed
qed

lemma whitespaceTokens_trim: "whitespaceTokens (trim ln) = whitespaceTokens ln"
proof -
  obtain r where r: "dropWhile isSpace ln = trim ln @ r" "\<forall>c \<in> set r. isSpace c" by (rule trim_decomp)
  have "whitespaceTokens ln = whitespaceTokens (trim ln @ r)"
    using whitespaceTokens_dropWhile[of ln] by (simp add: r(1))
  then show ?thesis by (simp add: whitespaceTokens_append_space[OF r(2)])
qed

lemma parts_dropWhile:
  "filter (\<lambda>part. length part > 0) (split_ws s)
     = filter (\<lambda>part. length part > 0) (split_ws (dropWhile isSpace s))"
  by (cases s) auto

lemma whitespaceTokens_parts:
  "filter (\<lambda>part. length part > 0) (split_ws s) = whitespaceTokens s"
proof (induction s rule: whitespaceTokens.induct)
  case (1 s)
  show ?case
  proof (cases "dropWhile isSpace s")
    case Nil
    show ?thesis
      by (subst parts_dropWhile) (simp add: Nil whitespaceTokens_Nil[OF Nil] del: dropWhile_eq_Nil_conv)
  next
    case (Cons c cs)
    have c: "\<not> isSpace c" using dropWhile_eq_ConsD[OF Cons] by simp
    have ih: "filter (\<lambda>part. length part > 0) (split_ws (dropWhile (\<lambda>x. \<not> isSpace x) cs))
                = whitespaceTokens (dropWhile (\<lambda>x. \<not> isSpace x) cs)"
      by (rule "1.IH"[OF Cons])
    have rest: "filter (\<lambda>part. length part > 0)
                  (case dropWhile (\<lambda>x. \<not> isSpace x) cs of [] \<Rightarrow> [] | _ # r \<Rightarrow> split_ws (dropWhile isSpace r))
                = whitespaceTokens (dropWhile (\<lambda>x. \<not> isSpace x) cs)"
    proof (cases "dropWhile (\<lambda>x. \<not> isSpace x) cs")
      case Nil
      then show ?thesis by (simp add: whitespaceTokens_Nil del: dropWhile_eq_Nil_conv)
    next
      case Cons': (Cons x r)
      have x: "isSpace x" using dropWhile_eq_ConsD[OF Cons'] by simp
      have "filter (\<lambda>part. length part > 0) (split_ws (x # r))
              = filter (\<lambda>part. length part > 0) (split_ws (dropWhile isSpace r))"
        using x by simp
      with ih show ?thesis by (simp add: Cons')
    qed
    have "filter (\<lambda>part. length part > 0) (split_ws (c # cs))
            = (c # takeWhile (\<lambda>x. \<not> isSpace x) cs) # whitespaceTokens (dropWhile (\<lambda>x. \<not> isSpace x) cs)"
      using rest c by (subst split_ws_unfold) simp
    then show ?thesis
      by (subst parts_dropWhile) (simp add: Cons whitespaceTokens_Cons[OF Cons])
  qed
qed


lemma whitespaceTokens_members:
  "p \<in> set (whitespaceTokens s) \<Longrightarrow> p \<noteq> [] \<and> (\<forall>c \<in> set p. \<not> isSpace c)"
proof (induction s rule: whitespaceTokens.induct)
  case (1 s)
  show ?case
  proof (cases "dropWhile isSpace s")
    case Nil
    with "1.prems" show ?thesis by (simp add: whitespaceTokens_Nil del: dropWhile_eq_Nil_conv)
  next
    case (Cons c cs)
    from "1.prems" have "p = c # takeWhile (\<lambda>x. \<not> isSpace x) cs
        \<or> p \<in> set (whitespaceTokens (dropWhile (\<lambda>x. \<not> isSpace x) cs))"
      by (simp add: whitespaceTokens_Cons[OF Cons])
    then show ?thesis
    proof
      assume "p = c # takeWhile (\<lambda>x. \<not> isSpace x) cs"
      then show ?thesis using dropWhile_eq_ConsD[OF Cons] by (auto dest: set_takeWhileD)
    next
      assume "p \<in> set (whitespaceTokens (dropWhile (\<lambda>x. \<not> isSpace x) cs))"
      then show ?thesis by (rule "1.IH"[OF Cons])
    qed
  qed
qed

lemma dropWhile_no_match: "\<forall>c \<in> set p. \<not> P c \<Longrightarrow> dropWhile P p = p"
  by (cases p) simp_all

lemma trim_no_space:
  assumes "\<forall>c \<in> set p. \<not> isSpace c"
  shows "trim p = p"
proof -
  have "dropWhile isSpace p = p" by (rule dropWhile_no_match[OF assms])
  moreover have "dropWhile isSpace (rev p) = rev p"
    by (rule dropWhile_no_match) (use assms in simp)
  ultimately show ?thesis by (simp only: trim_def rev_rev_ident)
qed

lemma one_token_iff:
  assumes "trim ln \<noteq> []"
  shows "length (whitespaceTokens ln) < 2 \<longleftrightarrow> (\<forall>c \<in> set (trim ln). \<not> isSpace c)"
proof -
  obtain c cs where t: "trim ln = c # cs" using assms by (cases "trim ln") auto
  have c: "\<not> isSpace c" using trim_ends(1)[OF assms] t by simp
  then have d: "dropWhile isSpace (trim ln) = c # cs" by (simp add: t)
  let ?rest = "dropWhile (\<lambda>x. \<not> isSpace x) cs"
  have "whitespaceTokens ln = (c # takeWhile (\<lambda>x. \<not> isSpace x) cs) # whitespaceTokens ?rest"
    using whitespaceTokens_Cons[OF d] by (simp only: whitespaceTokens_trim)
  then have "length (whitespaceTokens ln) < 2 \<longleftrightarrow> whitespaceTokens ?rest = []"
    by (simp only: list.size length_Cons) (simp add: less_Suc_eq)
  also have "\<dots> \<longleftrightarrow> ?rest = []"
  proof
    assume "whitespaceTokens ?rest = []"
    then have all: "\<forall>x \<in> set ?rest. isSpace x" by (simp only: whitespaceTokens_Nil_iff)
    show "?rest = []"
    proof (rule ccontr)
      assume ne: "?rest \<noteq> []"
      then have "cs \<noteq> []" by auto
      have "cs = takeWhile (\<lambda>x. \<not> isSpace x) cs @ ?rest" by simp
      then have eq: "last cs = last ?rest" using ne by (metis last_appendR)
      have "last ?rest \<in> set ?rest" using ne by simp
      with all have "isSpace (last ?rest)" by blast
      then have "isSpace (last cs)" by (simp only: eq)
      moreover have "last (trim ln) = last cs" using \<open>cs \<noteq> []\<close> t by simp
      ultimately show False using trim_ends(2)[OF assms] by simp
    qed
  next
    assume r: "?rest = []"
    show "whitespaceTokens ?rest = []" unfolding r by (rule whitespaceTokens_Nil) simp
  qed
  also have "\<dots> \<longleftrightarrow> (\<forall>x \<in> set cs. \<not> isSpace x)" by (simp add: dropWhile_eq_Nil_conv)
  finally show ?thesis using c t by simp
qed

lemma missingIndexName_001_iff:
  "missingIndexName_001 (indexParts_001 t) \<longleftrightarrow> length (whitespaceTokens t) < 2"
proof -
  have "trim p1 \<noteq> []" if "whitespaceTokens t = p0 # p1 # ps" for p0 p1 ps
  proof -
    from that have "p1 \<in> set (whitespaceTokens t)" by simp
    from whitespaceTokens_members[OF this] show ?thesis by (simp add: trim_no_space)
  qed
  then show ?thesis
    unfolding missingIndexName_001_def indexParts_001_def whitespaceTokens_parts
    by (auto split: list.splits)
qed

lemma toUpperCase_INDEX_no_space:
  assumes "toUpperCase s = ''INDEX''"
  shows "\<forall>c \<in> set s. \<not> isSpace c"
proof
  fix c assume c: "c \<in> set s"
  have m: "toUpperCase s = map toUpperChar s"
    by (rule toUpperCase_map) (rule toUpperCase_INDEX(1)[OF assms])
  show "\<not> isSpace c"
  proof
    assume sp: "isSpace c"
    then have "toUpperChar c = c" by (rule toUpperChar_not_space)
    with c have "c \<in> set (toUpperCase s)" unfolding m set_map by (metis imageI)
    then have "c \<in> set ''INDEX''" by (simp only: assms)
    then have "\<not> isSpace c" by (auto simp: isSpace_def)
    with sp show False by simp
  qed
qed

lemma takeWhile_eq_self: "takeWhile P xs = xs \<longleftrightarrow> (\<forall>x \<in> set xs. P x)"
  by (induction xs) auto

lemma index_003_iff:
  assumes "trim ln \<noteq> []" and "statementKeyword ln = ''INDEX''"
  shows "firstWord_003 (trim ln) = ''INDEX'' \<and> length (split_char CHR '' '' (trim ln)) < 2
         \<longleftrightarrow> length (whitespaceTokens ln) < 2"
proof
  assume a: "firstWord_003 (trim ln) = ''INDEX'' \<and> length (split_char CHR '' '' (trim ln)) < 2"
  then have "CHR '' '' \<notin> set (trim ln)" by (simp add: length_split_char_lt2)
  then have "takeWhile (\<lambda>x. x \<noteq> CHR '' '') (trim ln) = trim ln" by (auto simp: takeWhile_eq_self)
  moreover from a have "toUpperCase (takeWhile (\<lambda>x. x \<noteq> CHR '' '') (trim ln)) = ''INDEX''"
    by (simp only: firstWord_003_def hd_split_char)
  ultimately have "toUpperCase (trim ln) = ''INDEX''" by (simp only:)
  then have "\<forall>c \<in> set (trim ln). \<not> isSpace c" by (rule toUpperCase_INDEX_no_space)
  then show "length (whitespaceTokens ln) < 2" by (simp only: one_token_iff[OF assms(1)])
next
  assume "length (whitespaceTokens ln) < 2"
  then have ns: "\<forall>c \<in> set (trim ln). \<not> isSpace c" by (simp only: one_token_iff[OF assms(1)])
  then have "CHR '' '' \<notin> set (trim ln)" by (auto simp: isSpace_def)
  then have 1: "takeWhile (\<lambda>x. x \<noteq> CHR '' '') (trim ln) = trim ln"
    and 2: "length (split_char CHR '' '' (trim ln)) < 2"
    by (auto simp: takeWhile_eq_self length_split_char_lt2)
  from ns have "takeWhile (\<lambda>x. \<not> isSpace x) (trim ln) = trim ln" by (simp add: takeWhile_eq_self)
  moreover from assms(2) have "toUpperCase (takeWhile (\<lambda>x. \<not> isSpace x) (trim ln)) = ''INDEX''"
    by (simp only: statementKeyword_def firstToken_trim)
  ultimately have "toUpperCase (trim ln) = ''INDEX''" by (simp only:)
  with 1 2 show "firstWord_003 (trim ln) = ''INDEX'' \<and> length (split_char CHR '' '' (trim ln)) < 2"
    by (simp only: firstWord_003_def hd_split_char simp_thms)
qed

lemma one_token_length:
  assumes "trim ln \<noteq> []" and "statementKeyword ln = ''INDEX''" and "length (whitespaceTokens ln) < 2"
  shows "length (trim ln) = 5"
proof -
  from assms(3) have ns: "\<forall>c \<in> set (trim ln). \<not> isSpace c" by (simp only: one_token_iff[OF assms(1)])
  then have "takeWhile (\<lambda>x. \<not> isSpace x) (trim ln) = trim ln" by (simp add: takeWhile_eq_self)
  moreover from assms(2) have "toUpperCase (takeWhile (\<lambda>x. \<not> isSpace x) (trim ln)) = ''INDEX''"
    by (simp only: statementKeyword_def firstToken_trim)
  ultimately have "toUpperCase (trim ln) = ''INDEX''" by (simp only:)
  then show ?thesis by (rule toUpperCase_INDEX(2))
qed


lemma msgs_neq2:
  "msgKeyword \<noteq> msgFilter" "msgIndex \<noteq> msgFilter" "msgMap \<noteq> msgFilter" "msgQuotes \<noteq> msgFilter"
  "msgKeyword \<noteq> msgMap" "msgIndex \<noteq> msgMap" "msgFilter \<noteq> msgMap" "msgQuotes \<noteq> msgMap"
  using msgs_distinct by auto

subsection \<open>The unknown-keyword rule\<close>

text \<open>
  In the validator of \<^verbatim>\<open>part_001\<close> the rule is as claim C4 states it: a line that is
  neither blank nor a comment gets the unknown-keyword Error, from column 0 to the length
  of its statement keyword (its first token in upper case), exactly when the statement
  keyword is none of the six, and exactly once.
\<close>

lemma unknown_keyword_001:
  assumes "i < length (split_char CHR 0x0A text)"
    and "ln = split_char CHR 0x0A text ! i"
    and "\<not> (trim ln = [] \<or> startsWith (trim ln) ''//'')"
  shows "filter (\<lambda>d. line (start (range d)) = i
                     \<and> message d = ''Line must start with one of: INDEX, FILTER, MAP, AS, SQL, JOIN'')
           (diagnostics_001 text)
         = (if statementKeyword ln \<in> set [''INDEX'', ''FILTER'', ''MAP'', ''AS'', ''SQL'', ''JOIN'']
            then []
            else [\<lparr> severity = 1,
                    range = \<lparr> start = \<lparr> line = i, character = 0 \<rparr>,
                              end_pos = \<lparr> line = i,
                                          character = int (length (statementKeyword ln)) \<rparr> \<rparr>,
                    message = ''Line must start with one of: INDEX, FILTER, MAP, AS, SQL, JOIN'',
                    source = ''Echo Query'' \<rparr>])"
proof -
  have m: "msgKeyword = ''Line must start with one of: INDEX, FILTER, MAP, AS, SQL, JOIN''"
    by (simp add: msgKeyword_def validStartKeywords_def)
  have "filter (\<lambda>d. message d = msgKeyword) (validateLine_001 i ln)
          = (if statementKeyword ln \<in> set validStartKeywords then []
             else [mkDiagnostic 1 i (length (statementKeyword ln)) msgKeyword])"
    using assms(3)
    by (simp add: validateLine_001_def Let_def msgs_neq msgs_neq2 firstWord_001_keyword)
  then show ?thesis
    unfolding filter_line_message diagnostics_001_at_line m[symmetric] using assms(1,2)
    by (simp add: validStartKeywords_def mkDiagnostic_def)
qed


text \<open>
  Claim C4 on the validator of \<^verbatim>\<open>part_003\<close>. The first word there is what precedes the
  first space character of the trimmed line. On the line \<^verbatim>\<open>INDEX\<close>, tab, \<^verbatim>\<open>users\<close> the
  statement keyword is INDEX, and yet the validator of \<^verbatim>\<open>part_003\<close> reports an unknown
  keyword of 11 columns; the validator of \<^verbatim>\<open>part_001\<close> reports nothing.
\<close>

theorem C4_tab_separated_line:
  "statementKeyword (''INDEX'' @ [CHR 0x09] @ ''users'') = ''INDEX''
   \<and> diagnostics_003 (''INDEX'' @ [CHR 0x09] @ ''users'')
       = [\<lparr> severity = 1,
            range = \<lparr> start = \<lparr> line = 0, character = 0 \<rparr>,
                      end_pos = \<lparr> line = 0, character = 11 \<rparr> \<rparr>,
            message = ''Line must start with one of: INDEX, FILTER, MAP, AS, SQL, JOIN'',
            source = ''Echo Query'' \<rparr>]
   \<and> diagnostics_001 (''INDEX'' @ [CHR 0x09] @ ''users'') = []"
  by code_simp


subsection \<open>The INDEX rule\<close>

text \<open>
  Claim C6, as the source has it. The span of the INDEX diagnostic ends at the length of
  the trimmed line in \<^verbatim>\<open>part_001\<close>, but at the length of the untrimmed line in
  \<^verbatim>\<open>part_003\<close>: for the line \<^verbatim>\<open>INDEX\<close> with two blanks before and one after, the trimmed
  line has 5 characters and the span of \<^verbatim>\<open>part_003\<close> ends at column 8.
\<close>

theorem C6_untrimmed_counterexample:
  "statementKeyword ''  INDEX '' = ''INDEX''
   \<and> length (whitespaceTokens ''  INDEX '') = 1
   \<and> length (trim ''  INDEX '') = 5
   \<and> diagnostics_003 ''  INDEX ''
       = [\<lparr> severity = 1,
            range = \<lparr> start = \<lparr> line = 0, character = 0 \<rparr>,
                      end_pos = \<lparr> line = 0, character = 8 \<rparr> \<rparr>,
            message = ''INDEX statement must be followed by an index name'',
            source = ''Echo Query'' \<rparr>]"
  by code_simp


text \<open>
  Claim C6, amended. On a line that is neither blank nor a comment and whose statement
  keyword is INDEX, each validator emits the INDEX diagnostic exactly when the line has
  fewer than two whitespace-delimited tokens, and then exactly once, as an Error from
  column 0; the end column is the length of the trimmed line in \<^verbatim>\<open>part_001\<close> and the length
  of the untrimmed line in \<^verbatim>\<open>part_003\<close>. The trimmed line then has 5 characters, so the
  fallback width 5 of \<^verbatim>\<open>part_001\<close> never differs from the length of the trimmed line.
\<close>

theorem C6_index_arity:
  assumes "i < length (split_char CHR 0x0A text)"
    and "ln = split_char CHR 0x0A text ! i"
    and "\<not> (trim ln = [] \<or> startsWith (trim ln) ''//'')"
    and "statementKeyword ln = ''INDEX''"
  shows "filter (\<lambda>d. line (start (range d)) = i
                     \<and> message d = ''INDEX statement must be followed by an index name'')
           (diagnostics_001 text)
         = (if length (whitespaceTokens ln) < 2
            then [mkDiagnostic 1 i (length (trim ln)) ''INDEX statement must be followed by an index name'']
            else [])
       \<and> filter (\<lambda>d. line (start (range d)) = i
                     \<and> message d = ''INDEX statement must be followed by an index name'')
           (diagnostics_003 text)
         = (if length (whitespaceTokens ln) < 2
            then [mkDiagnostic 1 i (length ln) ''INDEX statement must be followed by an index name'']
            else [])
       \<and> (length (whitespaceTokens ln) < 2 \<longrightarrow> length (trim ln) = 5)"
proof -
  have ne: "trim ln \<noteq> []" using assms(3) by simp
  have k1: "firstWord_001 (trim ln) = ''INDEX''" using assms(4) by (simp add: firstWord_001_keyword)
  have "filter (\<lambda>d. message d = msgIndex) (validateLine_001 i ln)
          = (if length (whitespaceTokens ln) < 2
             then [mkDiagnostic 1 i (length (trim ln)) msgIndex] else [])"
    using assms(3) ne k1
    by (simp add: validateLine_001_def Let_def msgs_neq msgs_neq2 missingIndexName_001_iff
          whitespaceTokens_trim validStartKeywords_def)
  then have a: "filter (\<lambda>d. line (start (range d)) = i \<and> message d = msgIndex) (diagnostics_001 text)
          = (if length (whitespaceTokens ln) < 2
             then [mkDiagnostic 1 i (length (trim ln)) msgIndex] else [])"
    unfolding filter_line_message diagnostics_001_at_line using assms(1,2) by simp
  have "filter (\<lambda>d. message d = msgIndex) (validateLine_003 i ln)
          = (if firstWord_003 (trim ln) = ''INDEX'' \<and> length (split_char CHR '' '' (trim ln)) < 2
             then [mkDiagnostic 1 i (length ln) msgIndex] else [])"
    using assms(3)
    by (simp add: validateLine_003_def Let_def msgs_neq msgs_neq2)
  then have "filter (\<lambda>d. message d = msgIndex) (validateLine_003 i ln)
          = (if length (whitespaceTokens ln) < 2
             then [mkDiagnostic 1 i (length ln) msgIndex] else [])"
    by (simp only: index_003_iff[OF ne assms(4)])
  then have b: "filter (\<lambda>d. line (start (range d)) = i \<and> message d = msgIndex) (diagnostics_003 text)
          = (if length (whitespaceTokens ln) < 2
             then [mkDiagnostic 1 i (length ln) msgIndex] else [])"
    unfolding filter_line_message diagnostics_003_at_line using assms(1,2) by simp
  have c: "length (whitespaceTokens ln) < 2 \<longrightarrow> length (trim ln) = 5"
    using one_token_length[OF ne assms(4)] by blast
  from a b c show ?thesis unfolding msgIndex_def by blast
qed


text \<open>
  A text of three lines: a comment, \<^verbatim>\<open>index\<close> followed by a blank and a no-break space,
  and \<^verbatim>\<open>INDEX usersonly\<close>.
\<close>

theorem C6_witness:
  "filter (\<lambda>d. line (start (range d)) = 1
                     \<and> message d = ''INDEX statement must be followed by an index name'')
           (diagnostics_001 (''// q'' @ [CHR 0x0A] @ (''index '' @ [CHR 0xA0]) @ [CHR 0x0A] @ ''INDEX usersonly''))
     = [mkDiagnostic 1 1 5 ''INDEX statement must be followed by an index name'']
   \<and> filter (\<lambda>d. line (start (range d)) = 1
                     \<and> message d = ''INDEX statement must be followed by an index name'')
           (diagnostics_003 (''// q'' @ [CHR 0x0A] @ (''index '' @ [CHR 0xA0]) @ [CHR 0x0A] @ ''INDEX usersonly''))
     = [mkDiagnostic 1 1 7 ''INDEX statement must be followed by an index name'']
   \<and> filter (\<lambda>d. line (start (range d)) = 2
                     \<and> message d = ''INDEX statement must be followed by an index name'')
           (diagnostics_001 (''// q'' @ [CHR 0x0A] @ (''index '' @ [CHR 0xA0]) @ [CHR 0x0A] @ ''INDEX usersonly'')) = []
   \<and> filter (\<lambda>d. line (start (range d)) = 2
                     \<and> message d = ''INDEX statement must be followed by an index name'')
           (diagnostics_003 (''// q'' @ [CHR 0x0A] @ (''index '' @ [CHR 0xA0]) @ [CHR 0x0A] @ ''INDEX usersonly'')) = []"
proof -
  let ?t = "''// q'' @ [CHR 0x0A] @ (''index '' @ [CHR 0xA0]) @ [CHR 0x0A] @ ''INDEX usersonly''"
  have l1: "1 < length (split_char CHR 0x0A ?t)" and l2: "2 < length (split_char CHR 0x0A ?t)"
    by simp_all
  have e1: "(''index '' @ [CHR 0xA0]) = split_char CHR 0x0A ?t ! 1"
    and e2: "''INDEX usersonly'' = split_char CHR 0x0A ?t ! 2"
    by simp_all
  have s1: "\<not> (trim (''index '' @ [CHR 0xA0]) = [] \<or> startsWith (trim (''index '' @ [CHR 0xA0])) ''//'')"
    and s2: "\<not> (trim ''INDEX usersonly'' = [] \<or> startsWith (trim ''INDEX usersonly'') ''//'')"
    by code_simp+
  have k1: "statementKeyword (''index '' @ [CHR 0xA0]) = ''INDEX''"
    and k2: "statementKeyword ''INDEX usersonly'' = ''INDEX''"
    by code_simp+
  have n1: "length (whitespaceTokens (''index '' @ [CHR 0xA0])) < 2" "length (''index '' @ [CHR 0xA0]) = 7" "length (trim (''index '' @ [CHR 0xA0])) = 5"
    and n2: "\<not> length (whitespaceTokens ''INDEX usersonly'') < 2"
    by code_simp+
  from C6_index_arity [OF l1 e1 s1 k1] C6_index_arity [OF l2 e2 s2 k2] n1 n2
  show ?thesis by simp
qed


subsection \<open>Lines with characters outside ASCII\<close>

text \<open>
  A no-break space is trimmed and separates tokens as a blank does: a line of one
  no-break space is blank, a no-break space before \<^verbatim>\<open>//\<close> leaves a comment, and after
  \<^verbatim>\<open>INDEX\<close>, a blank and a no-break space the index name is missing. The first word is
  measured in upper case, where a sharp s takes two columns.
\<close>

lemma no_break_space_lines:
  "diagnostics_003 [CHR 0xA0] = []"
  "diagnostics_001 [CHR 0xA0] = []"
  "diagnostics_003 ([CHR 0xA0] @ ''//'' @ [CHR 0x22]) = []"
  "diagnostics_001 ([CHR 0xA0] @ ''//'' @ [CHR 0x22]) = []"
  "diagnostics_003 (''INDEX '' @ [CHR 0xA0])
     = [mkDiagnostic 1 0 7 ''INDEX statement must be followed by an index name'']"
  "diagnostics_001 (''INDEX '' @ [CHR 0xA0])
     = [mkDiagnostic 1 0 5 ''INDEX statement must be followed by an index name'']"
  "diagnostics_001 (''INDEX'' @ [CHR 0xA0] @ ''users'') = []"
  by code_simp+

lemma latin1_first_word:
  "toUpperCase [CHR 0xDF, CHR ''x'', CHR 0xE9, CHR 0xF7] = [CHR ''S'', CHR ''S'', CHR ''X'', CHR 0xC9, CHR 0xF7]"
  "diagnostics_003 [CHR 0xDF, CHR ''x'']
     = [mkDiagnostic 1 0 3 ''Line must start with one of: INDEX, FILTER, MAP, AS, SQL, JOIN'']"
  "diagnostics_001 [CHR 0xDF, CHR ''x'']
     = [mkDiagnostic 1 0 3 ''Line must start with one of: INDEX, FILTER, MAP, AS, SQL, JOIN'']"
  by code_simp+


section \<open>Properties of completion\<close>

text \<open>
  Claim C7. For an open document and any position, completion returns the seven keyword
  items followed by the four field items, eleven in all, not incomplete; neither the
  text nor the position enters the result. For a URI with no open document the item
  list is empty.
\<close>

theorem C7_completion_static_list:
  "(documents u = Some document \<longrightarrow>
      completion documents u position = \<lparr> isIncomplete = False, items = keywordItems @ fieldItems \<rparr>
      \<and> map label (items (completion documents u position)) =
          [''INDEX'', ''FILTER'', ''MAP'', ''AS'', ''SQL'', ''JOIN'', ''NOT'',
           ''winlog.event_id'', ''winlog.event_data.ProcessName'', ''host.hostname'',
           ''process.executable'']
      \<and> map kind (items (completion documents u position)) =
          [Keyword, Keyword, Keyword, Keyword, Keyword, Keyword, Keyword, Field, Field, Field, Field]
      \<and> length (items (completion documents u position)) = 11)
   \<and> (documents u = None \<longrightarrow>
        completion documents u position = \<lparr> isIncomplete = False, items = [] \<rparr>)"
  by (simp add: completion_def keywordItems_def fieldItems_def fieldPaths_def)


text \<open>One open document; a second URI that is not open.\<close>

theorem C7_witness:
  "map label (items (completion [''file:///q.echo'' \<mapsto> oneLineDocument ''file:///q.echo'' ''FIL'']
                       ''file:///q.echo'' \<lparr> line = 0, character = 3 \<rparr>)) =
      [''INDEX'', ''FILTER'', ''MAP'', ''AS'', ''SQL'', ''JOIN'', ''NOT'',
       ''winlog.event_id'', ''winlog.event_data.ProcessName'', ''host.hostname'',
       ''process.executable'']
   \<and> completion [''file:///q.echo'' \<mapsto> oneLineDocument ''file:///q.echo'' ''FIL'']
        ''file:///other.echo'' \<lparr> line = 0, character = 3 \<rparr> = \<lparr> isIncomplete = False, items = [] \<rparr>"
proof -
  let ?docs = "[''file:///q.echo'' \<mapsto> oneLineDocument ''file:///q.echo'' ''FIL'']"
  have present: "?docs ''file:///q.echo'' = Some (oneLineDocument ''file:///q.echo'' ''FIL'')"
    by simp
  have absent: "?docs ''file:///other.echo'' = None"
    by simp
  from C7_completion_static_list
         [of ?docs "''file:///q.echo''" "oneLineDocument ''file:///q.echo'' ''FIL''"
             "\<lparr> line = 0, character = 3 \<rparr>"] present
  have a: "map label (items (completion ?docs ''file:///q.echo'' \<lparr> line = 0, character = 3 \<rparr>)) =
      [''INDEX'', ''FILTER'', ''MAP'', ''AS'', ''SQL'', ''JOIN'', ''NOT'',
       ''winlog.event_id'', ''winlog.event_data.ProcessName'', ''host.hostname'',
       ''process.executable'']"
    by blast
  from C7_completion_static_list
         [of ?docs "''file:///other.echo''" "oneLineDocument ''file:///q.echo'' ''FIL''"
             "\<lparr> line = 0, character = 3 \<rparr>"] absent
  have b: "completion ?docs ''file:///other.echo'' \<lparr> line = 0, character = 3 \<rparr>
             = \<lparr> isIncomplete = False, items = [] \<rparr>"
    by blast
  from a b show ?thesis by (rule conjI)
qed

section \<open>Properties of hover\<close>

text \<open>
  Claim C2, as the source has it. The claim says that a position with no enclosing word
  gives the absent result. In the source the final \<^verbatim>\<open>return\<close> of \<^verbatim>\<open>hover\<close> is reached both
  when \<^verbatim>\<open>getWordAtOffset\<close> finds no word and when the word is not a keyword: between the
  two blanks of \<^verbatim>\<open>INDEX  users\<close> no word is found, and the result is the generic content.
\<close>

theorem C2_hover_counterexample:
  "getWordAtOffset ''INDEX  users'' 6 = None
   \<and> hover [''file:///q.echo'' \<mapsto> oneLineDocument ''file:///q.echo'' ''INDEX  users'']
        ''file:///q.echo'' \<lparr> line = 0, character = 6 \<rparr>
      = Some \<lparr> contents = [''Echo Query Language''] \<rparr>"
  by code_simp


text \<open>
  Claim C2, amended. For an open document: when no word encloses the position the
  result is the generic content \<^verbatim>\<open>Echo Query Language\<close>; when the word found is a keyword
  in upper case, in any letter case, the result is the content of that keyword, which
  differs from the generic one; when the word found is no keyword the result is the
  generic content. The result is never absent for an open document.
\<close>

theorem C2_hover_results:
  assumes "documents u = Some document"
  shows "(getWordAtOffset (getText document) (offsetAt document position) = None \<longrightarrow>
            hover documents u position = Some \<lparr> contents = [''Echo Query Language''] \<rparr>)
       \<and> (\<forall>w. getWordAtOffset (getText document) (offsetAt document position) = Some w
                \<and> toUpperCase w \<in> set echoKeywords \<longrightarrow>
              hover documents u position = Some (keywordHover (toUpperCase w))
              \<and> keywordHover (toUpperCase w) \<noteq> \<lparr> contents = [''Echo Query Language''] \<rparr>)
       \<and> (\<forall>w. getWordAtOffset (getText document) (offsetAt document position) = Some w
                \<and> toUpperCase w \<notin> set echoKeywords \<longrightarrow>
              hover documents u position = Some \<lparr> contents = [''Echo Query Language''] \<rparr>)
       \<and> hover documents u position \<noteq> None"
  using assms
  by (auto simp: hover_def Let_def echoKeywords_def keywordHover_def split: option.splits)


text \<open>
  The line \<^verbatim>\<open>filter  users\<close>: inside \<^verbatim>\<open>filter\<close>, between the two blanks, and inside
  \<^verbatim>\<open>users\<close>.
\<close>

theorem C2_witness:
  "hover [''file:///q.echo'' \<mapsto> oneLineDocument ''file:///q.echo'' ''filter  users'']
        ''file:///q.echo'' \<lparr> line = 0, character = 3 \<rparr>
      = Some \<lparr> contents = [''FILTER operation'', ''Filters and transforms the result set''] \<rparr>
   \<and> hover [''file:///q.echo'' \<mapsto> oneLineDocument ''file:///q.echo'' ''filter  users'']
        ''file:///q.echo'' \<lparr> line = 0, character = 7 \<rparr>
      = Some \<lparr> contents = [''Echo Query Language''] \<rparr>
   \<and> hover [''file:///q.echo'' \<mapsto> oneLineDocument ''file:///q.echo'' ''filter  users'']
        ''file:///q.echo'' \<lparr> line = 0, character = 9 \<rparr>
      = Some \<lparr> contents = [''Echo Query Language''] \<rparr>"
proof -
  let ?d = "oneLineDocument ''file:///q.echo'' ''filter  users''"
  let ?docs = "[''file:///q.echo'' \<mapsto> ?d]"
  have o: "?docs ''file:///q.echo'' = Some ?d" by simp
  have w3: "getWordAtOffset (getText ?d) (offsetAt ?d \<lparr> line = 0, character = 3 \<rparr>) = Some ''filter''"
    by code_simp
  have w7: "getWordAtOffset (getText ?d) (offsetAt ?d \<lparr> line = 0, character = 7 \<rparr>) = None"
    by code_simp
  have w9: "getWordAtOffset (getText ?d) (offsetAt ?d \<lparr> line = 0, character = 9 \<rparr>) = Some ''users''"
    by code_simp
  have k: "toUpperCase ''filter'' = ''FILTER''" "''FILTER'' \<in> set echoKeywords"
    "toUpperCase ''users'' \<notin> set echoKeywords"
    by code_simp+
  have "hover ?docs ''file:///q.echo'' \<lparr> line = 0, character = 3 \<rparr> = Some (keywordHover ''FILTER'')"
    using C2_hover_results [of ?docs "''file:///q.echo''" ?d "\<lparr> line = 0, character = 3 \<rparr>", OF o] w3 k
    by simp
  moreover have "keywordHover ''FILTER'' = \<lparr> contents = [''FILTER operation'', ''Filters and transforms the result set''] \<rparr>"
    by (simp add: keywordHover_def)
  moreover have "hover ?docs ''file:///q.echo'' \<lparr> line = 0, character = 7 \<rparr> = Some \<lparr> contents = [''Echo Query Language''] \<rparr>"
    using C2_hover_results [of ?docs "''file:///q.echo''" ?d "\<lparr> line = 0, character = 7 \<rparr>", OF o] w7
    by simp
  moreover have "hover ?docs ''file:///q.echo'' \<lparr> line = 0, character = 9 \<rparr> = Some \<lparr> contents = [''Echo Query Language''] \<rparr>"
    using C2_hover_results [of ?docs "''file:///q.echo''" ?d "\<lparr> line = 0, character = 9 \<rparr>", OF o] w9 k
    by simp
  ultimately show ?thesis by simp
qed


section \<open>Properties of the validation schedule\<close>

lemma timersTracked_initial: "timersTracked initialServer"
  by (simp add: timersTracked_def initialServer_def)

lemma timersTracked_clock: "timersTracked (sv\<lparr> clock := c \<rparr>) = timersTracked sv"
  by (simp add: timersTracked_def)

lemma timersTracked_cleanDiagnostics: "timersTracked sv \<Longrightarrow> timersTracked (cleanDiagnostics d sv)"
  by (simp add: timersTracked_def cleanDiagnostics_def)

lemma timersTracked_cleanPending:
  assumes "timersTracked sv"
  shows "timersTracked (cleanPendingValidation d sv)
         \<and> (\<forall>t \<in> set (timeouts (cleanPendingValidation d sv)). uri (callbackDocument t) \<noteq> uri d)
         \<and> nextHandle (cleanPendingValidation d sv) = nextHandle sv"
proof (cases "pendingValidationRequests sv (uri d)")
  case None
  with assms show ?thesis
    by (auto simp: cleanPendingValidation_def timersTracked_def)
next
  case (Some h)
  with assms show ?thesis
    by (auto simp: cleanPendingValidation_def clearTimeout_def timersTracked_def distinct_map_filter)
qed

lemma timersTracked_validate: 
  assumes "timersTracked sv"
  shows "timersTracked (validate_003 d sv)"
proof -
  from timersTracked_cleanPending[OF assms, of d]
  show ?thesis
    by (auto simp: validate_003_def Let_def timersTracked_def)
qed

lemma timersTracked_fire:
  assumes "timersTracked sv" "t \<in> set (timeouts sv)"
  shows "timersTracked (fire_003 t sv)"
    and "timeouts (fire_003 t sv) = filter (\<lambda>t'. handle t' \<noteq> handle t) (timeouts sv)"
proof -
  have same: "handle t' = handle t"
    if "t' \<in> set (timeouts sv)" "uri (callbackDocument t') = uri (callbackDocument t)" for t'
  proof -
    from assms(1) that(1)
    have a: "pendingValidationRequests sv (uri (callbackDocument t')) = Some (handle t')"
      unfolding timersTracked_def by blast
    from assms
    have b: "pendingValidationRequests sv (uri (callbackDocument t)) = Some (handle t)"
      unfolding timersTracked_def by blast
    from a b that(2) show ?thesis by (metis option.inject)
  qed
  show "timeouts (fire_003 t sv) = filter (\<lambda>t'. handle t' \<noteq> handle t) (timeouts sv)"
    by (simp add: fire_003_def doValidate_003_def)
  show "timersTracked (fire_003 t sv)"
    using assms(1) same
    by (auto simp: fire_003_def doValidate_003_def timersTracked_def distinct_map_filter)
qed

lemma timersTracked_fold_fire:
  assumes "timersTracked sv" "set ts \<subseteq> set (timeouts sv)" "distinct ts"
  shows "timersTracked (fold fire_003 ts sv)"
  using assms
proof (induction ts arbitrary: sv)
  case Nil
  then show ?case by simp
next
  case (Cons t ts)
  have t: "t \<in> set (timeouts sv)" using Cons.prems by simp
  have inv': "timersTracked (fire_003 t sv)" by (rule timersTracked_fire(1)[OF Cons.prems(1) t])
  have "set ts \<subseteq> set (timeouts (fire_003 t sv))"
  proof
    fix t' assume t': "t' \<in> set ts"
    then have "t' \<in> set (timeouts sv)" "t' \<noteq> t" using Cons.prems by auto
    moreover from Cons.prems(1) have "inj_on handle (set (timeouts sv))"
      by (simp add: timersTracked_def distinct_map)
    ultimately have "handle t' \<noteq> handle t" using t by (auto dest: inj_onD)
    with \<open>t' \<in> set (timeouts sv)\<close> show "t' \<in> set (timeouts (fire_003 t sv))"
      by (simp add: timersTracked_fire(2)[OF Cons.prems(1) t])
  qed
  with inv' Cons.prems show ?case by (simp add: Cons.IH)
qed

lemma timersTracked_advance:
  assumes "timersTracked sv"
  shows "timersTracked (advance_003 now sv)"
proof -
  have d: "distinct (timeouts sv)" using assms by (auto simp: timersTracked_def distinct_map)
  show ?thesis
    unfolding advance_003_def
    by (rule timersTracked_fold_fire) (use assms d in \<open>auto simp: timersTracked_clock\<close>)
qed

lemma timersTracked_handle:
  assumes "timersTracked sv"
  shows "timersTracked (handle_003 ev sv)"
proof (cases ev)
  case (DidChangeContent now d)
  with assms show ?thesis by (auto intro!: timersTracked_validate timersTracked_advance)
next
  case (DidClose now d)
  from assms have "timersTracked (advance_003 now sv)" by (rule timersTracked_advance)
  then have "timersTracked (cleanPendingValidation d (advance_003 now sv))"
    using timersTracked_cleanPending by blast
  with DidClose show ?thesis by (simp add: timersTracked_cleanDiagnostics)
next
  case (Idle now)
  with assms show ?thesis by (auto intro!: timersTracked_advance)
qed

lemma timersTracked_fold_handle: "timersTracked sv \<Longrightarrow> timersTracked (fold handle_003 evs sv)"
  by (induction evs arbitrary: sv) (auto intro: timersTracked_handle)

lemma timersTracked_run: "timersTracked (run_003 evs)"
  unfolding run_003_def by (rule timersTracked_fold_handle[OF timersTracked_initial])

lemma filter_le_one:
  assumes "distinct (map f xs)" "\<And>x. x \<in> set xs \<Longrightarrow> P x \<Longrightarrow> f x = a"
  shows "length (filter P xs) \<le> 1"
  using assms
proof (induction xs)
  case Nil
  then show ?case by simp
next
  case (Cons x xs)
  show ?case
  proof (cases "P x")
    case True
    have "filter P xs = []"
    proof (rule ccontr)
      assume "filter P xs \<noteq> []"
      then obtain y where y: "y \<in> set xs" "P y" by (auto simp: filter_empty_conv)
      then have "f y = a" "f x = a" using Cons.prems(2) True by auto
      with y Cons.prems(1) show False by (auto simp: image_iff)
    qed
    with True show ?thesis by simp
  next
    case False
    with Cons show ?thesis by simp
  qed
qed

lemma pendingTimers_le_one: "timersTracked sv \<Longrightarrow> length (pendingTimers u sv) \<le> 1"
  unfolding pendingTimers_def timersTracked_def
  by (rule filter_le_one[where f = handle and a = "the (pendingValidationRequests sv u)"]) auto

lemma fold_handle_001_no_timeouts:
  "timeouts sv = [] \<Longrightarrow> timeouts (fold handle_001 evs sv) = []"
proof (induction evs arbitrary: sv)
  case Nil
  then show ?case by simp
next
  case (Cons ev evs)
  have "timeouts (handle_001 ev sv) = []"
    using Cons.prems
    by (cases ev)
       (auto simp: validate_001_def doValidate_001_def cleanPendingValidation_def clearTimeout_def
                   cleanDiagnostics_def split: option.splits)
  then show ?case by (simp add: Cons.IH)
qed

lemma debounce_two_changes:
  assumes "uri d1 = uri d2" "t1 \<le> t2" "t2 < t1 + 500"
  shows "published (run_003 [DidChangeContent t1 d1, DidChangeContent t2 d2, Idle t3])
       = (if t2 + 500 \<le> t3 then [(uri d2, diagnostics_003 (getText d2))] else [])"
  using assms
  by (simp add: run_003_def initialServer_def advance_003_def validate_003_def
        cleanPendingValidation_def clearTimeout_def fire_003_def doValidate_003_def Let_def)

lemma immediate_two_changes:
  "published (run_001 [DidChangeContent t1 d1, DidChangeContent t2 d2, Idle t3])
       = [(uri d1, diagnostics_001 (getText d1)), (uri d2, diagnostics_001 (getText d2))]"
  by (simp add: run_001_def initialServer_def validate_001_def
        cleanPendingValidation_def clearTimeout_def doValidate_001_def Let_def split: option.splits)


lemma pendingTimers_after_change:
  "map callbackDocument (pendingTimers (uri d) (run_003 (evs @ [DidChangeContent now d]))) = [d]"
proof -
  let ?sv = "advance_003 now (run_003 evs)"
  have tr: "timersTracked ?sv" by (rule timersTracked_advance[OF timersTracked_run])
  from timersTracked_cleanPending[OF tr, of d]
  have none: "filter (\<lambda>t. uri (callbackDocument t) = uri d) (timeouts (cleanPendingValidation d ?sv)) = []"
    by (auto simp: filter_empty_conv)
  have "run_003 (evs @ [DidChangeContent now d]) = validate_003 d ?sv"
    by (simp add: run_003_def)
  then show ?thesis
    by (simp add: pendingTimers_def validate_003_def Let_def none)
qed

text \<open>
  Claim C1, as the source has it. The claim holds for \<^verbatim>\<open>validate\<close> of \<^verbatim>\<open>part_003\<close>, which sets
  a timeout of 500 ms. \<^verbatim>\<open>validate\<close> of \<^verbatim>\<open>part_001\<close> calls \<^verbatim>\<open>doValidate\<close> at once: two changes
  of one document 100 ms apart give two validation passes and two published sets, the
  first over the first text.
\<close>

theorem C1_immediate_counterexample:
  "published (run_001 [DidChangeContent 0 (oneLineDocument ''file:///q.echo'' ''FILTER active''),
                       DidChangeContent 100 (oneLineDocument ''file:///q.echo'' ''FILTER active = 1''),
                       Idle 1000])
     = [(''file:///q.echo'', [mkDiagnostic 1 0 13 msgFilter]), (''file:///q.echo'', [])]
   \<and> length (published (run_001
         [DidChangeContent 0 (oneLineDocument ''file:///q.echo'' ''FILTER active''),
          DidChangeContent 100 (oneLineDocument ''file:///q.echo'' ''FILTER active = 1''),
          Idle 1000])) = 2"
  by code_simp

text \<open>
  Claim C1, amended. In the server of \<^verbatim>\<open>part_003\<close>, when two changes of one URI arrive
  less than 500 ms apart, nothing is published until 500 ms after the second, and then
  exactly one diagnostic set is published, that of the second text; after any history a
  change leaves exactly one timeout alive for its URI, holding the document of that
  change, and at every instant at most one timeout is alive per URI. In the server of
  \<^verbatim>\<open>part_001\<close> every change is validated at once, so the two changes publish two sets, one
  per text in order, and no timeout is ever alive.
\<close>

theorem C1_validation_schedule:
  assumes "uri d1 = uri d2" and "t1 \<le> t2" and "t2 < t1 + 500"
  shows "published (run_003 [DidChangeContent t1 d1, DidChangeContent t2 d2, Idle t3])
           = (if t2 + 500 \<le> t3 then [(uri d2, diagnostics_003 (getText d2))] else [])
       \<and> map callbackDocument (pendingTimers (uri d) (run_003 (evs @ [DidChangeContent now d]))) = [d]
       \<and> length (pendingTimers u (run_003 evs)) \<le> 1
       \<and> published (run_001 [DidChangeContent t1 d1, DidChangeContent t2 d2, Idle t3])
           = [(uri d1, diagnostics_001 (getText d1)), (uri d2, diagnostics_001 (getText d2))]
       \<and> timeouts (run_001 evs) = []"
proof -
  have "timeouts (run_001 evs) = []"
    unfolding run_001_def by (rule fold_handle_001_no_timeouts) (simp add: initialServer_def)
  with debounce_two_changes[OF assms] pendingTimers_after_change
    pendingTimers_le_one[OF timersTracked_run] immediate_two_changes
  show ?thesis by simp
qed

text \<open>
  Two changes of one document at 0 ms and 100 ms, looked at after 599 ms and after
  600 ms.
\<close>

theorem C1_witness:
  "published (run_003 [DidChangeContent 0 (oneLineDocument ''file:///q.echo'' ''FILTER active = 1''),
                       DidChangeContent 100 (oneLineDocument ''file:///q.echo'' ''FILTER active''),
                       Idle 599]) = []
   \<and> published (run_003 [DidChangeContent 0 (oneLineDocument ''file:///q.echo'' ''FILTER active = 1''),
                       DidChangeContent 100 (oneLineDocument ''file:///q.echo'' ''FILTER active''),
                       Idle 600])
       = [(''file:///q.echo'', [mkDiagnostic 1 0 13 msgFilter])]"
proof -
  let ?d1 = "oneLineDocument ''file:///q.echo'' ''FILTER active = 1''"
  let ?d2 = "oneLineDocument ''file:///q.echo'' ''FILTER active''"
  have u: "uri ?d1 = uri ?d2" by (simp add: oneLineDocument_def)
  have t: "(0::nat) \<le> 100" "(100::nat) < 0 + 500" by simp_all
  have v: "diagnostics_003 (getText ?d2) = [mkDiagnostic 1 0 13 msgFilter]" by code_simp
  have u2: "uri ?d2 = ''file:///q.echo''" by (simp add: oneLineDocument_def)
  from C1_validation_schedule [OF u t, of 599]
  have "published (run_003 [DidChangeContent 0 ?d1, DidChangeContent 100 ?d2, Idle 599]) = []"
    by simp
  moreover from C1_validation_schedule [OF u t, of 600]
  have "published (run_003 [DidChangeContent 0 ?d1, DidChangeContent 100 ?d2, Idle 600])
          = [(''file:///q.echo'', [mkDiagnostic 1 0 13 msgFilter])]"
    by (simp add: v u2)
  ultimately show ?thesis by (rule conjI)
qed

section \<open>Properties of the document symbols\<close>

lemma startsWith_take: "startsWith s pat \<longleftrightarrow> take (length pat) s = pat"
  by (induction s pat rule: startsWith.induct) auto

lemma find_map_comp: "find P (map f xs) = map_option f (find (\<lambda>x. P (f x)) xs)"
  by (induction xs) auto

lemma find_upt_Suc:
  "find P [0 ..< Suc (Suc n)] = (if P 0 then Some 0 else map_option Suc (find (\<lambda>p. P (Suc p)) [0 ..< Suc n]))"
proof -
  have "[0 ..< Suc (Suc n)] = 0 # map Suc [0 ..< Suc n]"
    by (simp only: map_Suc_upt upt_conv_Cons[of 0 "Suc (Suc n)"] zero_less_Suc)
  then show ?thesis by (simp only: find.simps find_map_comp)
qed

lemma indexOf_from_find:
  "indexOf_from i s pat =
     (case find (\<lambda>p. take (length pat) (drop p s) = pat) [0 ..< Suc (length s)] of
        None \<Rightarrow> - 1
      | Some p \<Rightarrow> i + int p)"
proof (induction s arbitrary: i)
  case Nil
  then show ?case by auto
next
  case (Cons c cs)
  show ?case
    by (simp only: length_Cons find_upt_Suc indexOf_from.simps startsWith_take Cons.IH)
       (auto split: option.splits)
qed

lemma indexOf_firstOccurrence: "indexOf s pat = firstOccurrence s pat"
  unfolding indexOf_def firstOccurrence_def indexOf_from_find
  by (simp split: option.splits)


lemma matchAll_occurrences:
  assumes "\<And>p c cs m. matchAt ci alts p (c # cs) = Some m \<Longrightarrow>
             occurrences ci alts (isWord c) cs
               = occurrences ci alts (isWord (last m)) (drop (length m - 1) cs)"
  shows "matchAll ci alts p s = occurrences ci alts p s"
  using assms
proof (induction ci alts p s rule: matchAll.induct)
  case (1 ignoreCase alts prevWord)
  then show ?case by simp
next
  case (2 ignoreCase alts prevWord c cs)
  show ?case
  proof (cases "matchAt ignoreCase alts prevWord (c # cs)")
    case None
    with "2.IH"(1)[OF None] "2.prems" show ?thesis by simp
  next
    case (Some m)
    with "2.IH"(2)[OF Some] "2.prems" show ?thesis by simp
  qed
qed

lemma occurrences_skip_word:
  "\<forall>c \<in> set w. isWord c \<Longrightarrow> occurrences ci alts True (w @ r) = occurrences ci alts True r"
  by (induction w) (auto simp: matchAt_def wordBoundary_def)

lemma firstAlternative_SomeD:
  "firstAlternative ci alts s = Some m \<Longrightarrow> \<exists>alt \<in> set alts. matchAlternative ci alt s = Some m"
  by (induction alts) (auto split: option.splits)

lemma matchAlternative_SomeD:
  assumes "matchAlternative ci alt s = Some m"
  shows "m = take (length alt) s" "length alt \<le> length s" "length m = length alt"
    "if ci then map toUpperChar m = map toUpperChar alt else m = alt"
    "wordBoundary (isWord (last m)) (drop (length alt) s)"
  using assms by (auto simp: matchAlternative_def Let_def split: if_splits)

lemma keyword_chars: "k \<in> set echoKeywords \<Longrightarrow> \<forall>c \<in> set k. isWord c"
  by (auto simp: echoKeywords_def isWord_def)

lemma canonical_word_chars:
  assumes "map toUpperChar m = map toUpperChar k" "\<forall>c \<in> set k. isWord c"
  shows "\<forall>c \<in> set m. isWord c"
proof
  fix c assume "c \<in> set m"
  then have "toUpperChar c \<in> set (map toUpperChar m)" by simp
  then have "toUpperChar c \<in> set (map toUpperChar k)" by (simp only: assms(1))
  then obtain d where "d \<in> set k" "toUpperChar c = toUpperChar d" by auto
  with assms(2) have "isWord (toUpperChar c)" by (simp add: isWord_toUpperChar)
  then show "isWord c" by (simp add: isWord_toUpperChar)
qed

lemma keyword_match_word:
  assumes "matchAt True echoKeywords p s = Some m"
  shows "m \<noteq> []" "\<forall>c \<in> set m. isWord c" "m = take (length m) s" "length m \<le> length s"
    "toUpperCase m \<in> set echoKeywords"
proof -
  from assms have "firstAlternative True echoKeywords s = Some m"
    by (simp add: matchAt_def split: if_splits)
  then obtain k where k: "k \<in> set echoKeywords" "matchAlternative True k s = Some m"
    by (auto dest: firstAlternative_SomeD)
  note d = matchAlternative_SomeD[OF k(2)]
  have "\<forall>x \<in> set echoKeywords. map toUpperChar x = x" by code_simp
  with k(1) have up: "map toUpperChar k = k" by blast
  from d(3) k(1) show "m \<noteq> []" by (auto simp: echoKeywords_def)
  from d(4) have e: "map toUpperChar m = map toUpperChar k" by simp
  then show w: "\<forall>c \<in> set m. isWord c" using keyword_chars[OF k(1)] by (rule canonical_word_chars)
  from d(1,3) show "m = take (length m) s" by simp
  from d(2,3) show "length m \<le> length s" by simp
  from w have "toUpperCase m = map toUpperChar m" by (rule toUpperCase_word)
  with e up k(1) show "toUpperCase m \<in> set echoKeywords" by simp
qed

lemma keyword_matchAll_occurrences:
  "matchAll True echoKeywords p s = occurrences True echoKeywords p s"
proof (rule matchAll_occurrences)
  fix p c cs m
  assume a: "matchAt True echoKeywords p (c # cs) = Some m"
  note k = keyword_match_word[OF a]
  from k(1,3) obtain m' where m: "m = c # m'" "m' = take (length m - 1) cs"
    by (cases m) (auto simp: take_Cons')
  have cs: "cs = m' @ drop (length m - 1) cs" by (simp add: m(2))
  have w: "\<forall>x \<in> set m'. isWord x" "isWord c" "isWord (last m)" using k(1,2) m(1) by auto
  have "occurrences True echoKeywords True cs
          = occurrences True echoKeywords True (m' @ drop (length m - 1) cs)"
    using cs by simp
  also have "\<dots> = occurrences True echoKeywords True (drop (length m - 1) cs)"
    by (rule occurrences_skip_word[OF w(1)])
  finally show "occurrences True echoKeywords (isWord c) cs
                  = occurrences True echoKeywords (isWord (last m)) (drop (length m - 1) cs)"
    using w by simp
qed


lemma field_match:
  assumes "matchAt False fieldPaths p s = Some m"
  shows "m \<in> set fieldPaths" "m = take (length m) s" "length m \<le> length s"
proof -
  from assms have "firstAlternative False fieldPaths s = Some m"
    by (simp add: matchAt_def split: if_splits)
  then obtain f where f: "f \<in> set fieldPaths" "matchAlternative False f s = Some m"
    by (auto dest: firstAlternative_SomeD)
  note d = matchAlternative_SomeD[OF f(2)]
  from d(4) f(1) show "m \<in> set fieldPaths" by simp
  from d(1,3) show "m = take (length m) s" by simp
  from d(2,3) show "length m \<le> length s" by simp
qed

lemma field_interior_1:
  "occurrences False fieldPaths True (''inlog.event_id'' @ r) = occurrences False fieldPaths True r"
  by (simp add: matchAt_def wordBoundary_def matchAlternative_def fieldPaths_def isWord_def Let_def)

lemma field_interior_2:
  "occurrences False fieldPaths True (''inlog.event_data.ProcessName'' @ r) = occurrences False fieldPaths True r"
  by (simp add: matchAt_def wordBoundary_def matchAlternative_def fieldPaths_def isWord_def Let_def)

lemma field_interior_3:
  "occurrences False fieldPaths True (''ost.hostname'' @ r) = occurrences False fieldPaths True r"
  by (simp add: matchAt_def wordBoundary_def matchAlternative_def fieldPaths_def isWord_def Let_def)

lemma field_interior_4:
  "occurrences False fieldPaths True (''rocess.executable'' @ r) = occurrences False fieldPaths True r"
  by (simp add: matchAt_def wordBoundary_def matchAlternative_def fieldPaths_def isWord_def Let_def)

lemma field_matchAll_occurrences:
  "matchAll False fieldPaths p s = occurrences False fieldPaths p s"
proof (rule matchAll_occurrences)
  fix p c cs m
  assume a: "matchAt False fieldPaths p (c # cs) = Some m"
  note k = field_match[OF a]
  from k(1) have ne: "m \<noteq> []" by (auto simp: fieldPaths_def)
  with k(2) obtain m' where m: "m = c # m'" "m' = take (length m - 1) cs"
    by (cases m) (auto simp: take_Cons')
  have cs: "cs = m' @ drop (length m - 1) cs" by (simp add: m(2))
  from k(1) have "c # m' \<in> set fieldPaths" by (simp only: m(1))
  then have "(c = CHR ''w'' \<and> m' = ''inlog.event_id'')
      \<or> (c = CHR ''w'' \<and> m' = ''inlog.event_data.ProcessName'')
      \<or> (c = CHR ''h'' \<and> m' = ''ost.hostname'')
      \<or> (c = CHR ''p'' \<and> m' = ''rocess.executable'')"
    by (simp add: fieldPaths_def)
  then consider
      "c = CHR ''w''" "m' = ''inlog.event_id''"
    | "c = CHR ''w''" "m' = ''inlog.event_data.ProcessName''"
    | "c = CHR ''h''" "m' = ''ost.hostname''"
    | "c = CHR ''p''" "m' = ''rocess.executable''"
    by blast
  then have "occurrences False fieldPaths (isWord c) (m' @ drop (length m - 1) cs)
                  = occurrences False fieldPaths (isWord (last m)) (drop (length m - 1) cs)"
  proof cases
    case 1
    then show ?thesis using field_interior_1 by (simp add: m(1) isWord_def)
  next
    case 2
    then show ?thesis using field_interior_2 by (simp add: m(1) isWord_def)
  next
    case 3
    then show ?thesis using field_interior_3 by (simp add: m(1) isWord_def)
  next
    case 4
    then show ?thesis using field_interior_4 by (simp add: m(1) isWord_def)
  qed
  with cs show "occurrences False fieldPaths (isWord c) cs
                  = occurrences False fieldPaths (isWord (last m)) (drop (length m - 1) cs)"
    by simp
qed


lemma keyword_occurrence_whole_word:
  assumes "m \<in> set (occurrences True echoKeywords p s)"
  shows "toUpperCase m \<in> set echoKeywords
       \<and> (\<exists>before after. s = before @ m @ after
             \<and> (if before = [] then \<not> p else \<not> isWord (last before))
             \<and> (after = [] \<or> \<not> isWord (hd after)))"
  using assms
proof (induction s arbitrary: p)
  case Nil
  then show ?case by simp
next
  case (Cons c cs)
  from Cons.prems consider (here) "matchAt True echoKeywords p (c # cs) = Some m"
    | (later) "m \<in> set (occurrences True echoKeywords (isWord c) cs)"
    by (auto split: option.splits)
  then show ?case
  proof cases
    case here
    note k = keyword_match_word[OF here]
    from here have b: "wordBoundary p (c # cs)" by (simp add: matchAt_def split: if_splits)
    from here have "firstAlternative True echoKeywords (c # cs) = Some m"
      by (simp add: matchAt_def split: if_splits)
    then obtain kw where "matchAlternative True kw (c # cs) = Some m"
      by (auto dest: firstAlternative_SomeD)
    from matchAlternative_SomeD(3,5)[OF this]
    have e: "wordBoundary (isWord (last m)) (drop (length m) (c # cs))" by simp
    from k(1,3) have hd: "hd m = c" by (cases m) (auto simp: take_Cons')
    with k(1,2) have "isWord c" by (cases m) auto
    with b have np: "\<not> p" by (simp add: wordBoundary_def)
    from k(1,2) have "isWord (last m)" by simp
    with e have after: "drop (length m) (c # cs) = [] \<or> \<not> isWord (hd (drop (length m) (c # cs)))"
      by (cases "drop (length m) (c # cs)") (auto simp: wordBoundary_def)
    have "c # cs = [] @ m @ drop (length m) (c # cs)"
      using k(3) by (metis append_Nil append_take_drop_id)
    with np after k(5) show ?thesis by (metis (full_types))
  next
    case later
    from Cons.IH[OF later] obtain before after where
      ih: "toUpperCase m \<in> set echoKeywords" "cs = before @ m @ after"
          "if before = [] then \<not> isWord c else \<not> isWord (last before)"
          "after = [] \<or> \<not> isWord (hd after)"
      by blast
    have "c # cs = (c # before) @ m @ after" using ih(2) by simp
    moreover have "\<not> isWord (last (c # before))" using ih(3) by (auto split: if_splits)
    ultimately show ?thesis using ih(1,4)
      by (intro conjI exI[of _ "c # before"] exI[of _ after]) auto
  qed
qed

text \<open>
  For an open document, \<^verbatim>\<open>findDocumentSymbols\<close> reports for every line, in order, one
  entry of kind 14 for every occurrence of one of the seven keywords, matched without
  regard to letter case and as a whole word, and then one entry of kind 7 for every
  occurrence of one of the four field paths between word boundaries. The name of an
  entry is the matched text; its span starts at the first occurrence of that text in the
  line, wherever the match itself stands, and is as long as the text, so that a text
  that occurs twice gives two entries with the same span. Every keyword entry is a whole
  word of the line: the character before it and the character after it, if any, are not
  word characters.
\<close>

lemma findDocumentSymbols_occurrences:
  assumes "documents u = Some document"
  shows "findDocumentSymbols documents u
           = forEach_symbols
               (\<lambda>i ln.
                  map (\<lambda>m. \<lparr> name = m, symbolKind = 14,
                              location = \<lparr> loc_uri = uri document,
                                loc_range = \<lparr> start = \<lparr> line = i, character = firstOccurrence ln m \<rparr>,
                                  end_pos = \<lparr> line = i,
                                    character = firstOccurrence ln m + int (length m) \<rparr> \<rparr> \<rparr> \<rparr>)
                    (occurrences True echoKeywords False ln)
                  @ map (\<lambda>m. \<lparr> name = m, symbolKind = 7,
                              location = \<lparr> loc_uri = uri document,
                                loc_range = \<lparr> start = \<lparr> line = i, character = firstOccurrence ln m \<rparr>,
                                  end_pos = \<lparr> line = i,
                                    character = firstOccurrence ln m + int (length m) \<rparr> \<rparr> \<rparr> \<rparr>)
                    (occurrences False fieldPaths False ln))
               0 (split_char CHR 0x0A (getText document))
       \<and> (\<forall>ln m. m \<in> set (occurrences True echoKeywords False ln) \<longrightarrow>
             toUpperCase m \<in> set echoKeywords
             \<and> (\<exists>before after. ln = before @ m @ after
                   \<and> (before = [] \<or> \<not> isWord (last before))
                   \<and> (after = [] \<or> \<not> isWord (hd after))))"
proof -
  have f: "lineSymbols (uri document)
      = (\<lambda>i ln.
                  map (\<lambda>m. \<lparr> name = m, symbolKind = 14,
                              location = \<lparr> loc_uri = uri document,
                                loc_range = \<lparr> start = \<lparr> line = i, character = firstOccurrence ln m \<rparr>,
                                  end_pos = \<lparr> line = i,
                                    character = firstOccurrence ln m + int (length m) \<rparr> \<rparr> \<rparr> \<rparr>)
                    (occurrences True echoKeywords False ln)
                  @ map (\<lambda>m. \<lparr> name = m, symbolKind = 7,
                              location = \<lparr> loc_uri = uri document,
                                loc_range = \<lparr> start = \<lparr> line = i, character = firstOccurrence ln m \<rparr>,
                                  end_pos = \<lparr> line = i,
                                    character = firstOccurrence ln m + int (length m) \<rparr> \<rparr> \<rparr> \<rparr>)
                    (occurrences False fieldPaths False ln))"
    by (intro ext)
       (simp add: lineSymbols_def mkSymbol_def
          keyword_matchAll_occurrences field_matchAll_occurrences indexOf_firstOccurrence)
  have w: "toUpperCase m \<in> set echoKeywords
             \<and> (\<exists>before after. ln = before @ m @ after
                   \<and> (before = [] \<or> \<not> isWord (last before))
                   \<and> (after = [] \<or> \<not> isWord (hd after)))"
    if "m \<in> set (occurrences True echoKeywords False ln)" for ln m
    using keyword_occurrence_whole_word[OF that] by (metis (full_types))
  show ?thesis
    using assms w by (simp add: findDocumentSymbols_def f)
qed

text \<open>
  Claim C8. The claim is that keyword matches are tagged with the kind Keyword and field
  matches with the kind Variable, and so say the comments of \<^verbatim>\<open>findDocumentSymbols\<close>. The
  numbers it writes are 14 and 7: in \<^verbatim>\<open>SymbolKind\<close> these are Constant and Property,
  Variable is 13 and there is no member Keyword. The document of the three lines
  \<^verbatim>\<open>index users\<close>, \<^verbatim>\<open>AS host.hostname as\<close> and \<^verbatim>\<open>INDEXED users\<close> shows it, together with
  the rest of the claim: on every line the keywords are found in any letter case and only
  as whole words, before the field paths of that line, and a span starts at the first
  occurrence of the matched text.
\<close>

theorem C8_symbol_kinds:
  "map (\<lambda>s. (name s, symbolKind s, symbolKindName (symbolKind s),
             line (start (loc_range (location s))),
             character (start (loc_range (location s))),
             character (end_pos (loc_range (location s)))))
     (findDocumentSymbols
        [''file:///q.echo'' \<mapsto>
           document \<lparr> getText := ''index users'' @ [CHR 0x0A] @ ''AS host.hostname as''
                                   @ [CHR 0x0A] @ ''INDEXED users'' \<rparr>]
        ''file:///q.echo'')
   = [(''index'', 14, Some ''Constant'', 0, 0, 5),
      (''AS'', 14, Some ''Constant'', 1, 0, 2),
      (''as'', 14, Some ''Constant'', 1, 17, 19),
      (''host.hostname'', 7, Some ''Property'', 1, 3, 16)]
   \<and> symbolKindName 13 = Some ''Variable''
   \<and> ''Keyword'' \<notin> set symbolKindNames"
proof -
  let ?t = "''index users'' @ [CHR 0x0A] @ ''AS host.hostname as'' @ [CHR 0x0A] @ ''INDEXED users''"
  let ?d = "document \<lparr> getText := ?t \<rparr>"
  have o: "[''file:///q.echo'' \<mapsto> ?d] ''file:///q.echo'' = Some ?d"
    by simp
  have g: "getText ?d = ?t"
    by simp
  have sp: "split_char CHR 0x0A ?t = [''index users'', ''AS host.hostname as'', ''INDEXED users'']"
    by simp
  have k0: "occurrences True echoKeywords False ''index users'' = [''index'']"
    and f0: "occurrences False fieldPaths False ''index users'' = []"
    and k1: "occurrences True echoKeywords False ''AS host.hostname as'' = [''AS'', ''as'']"
    and f1: "occurrences False fieldPaths False ''AS host.hostname as'' = [''host.hostname'']"
    and k2: "occurrences True echoKeywords False ''INDEXED users'' = []"
    and f2: "occurrences False fieldPaths False ''INDEXED users'' = []"
    and p: "firstOccurrence ''index users'' ''index'' = 0"
           "firstOccurrence ''AS host.hostname as'' ''AS'' = 0"
           "firstOccurrence ''AS host.hostname as'' ''as'' = 17"
           "firstOccurrence ''AS host.hostname as'' ''host.hostname'' = 3"
    by code_simp+
  have n: "symbolKindName 14 = Some ''Constant''" "symbolKindName 7 = Some ''Property''"
    "symbolKindName 13 = Some ''Variable''" "''Keyword'' \<notin> set symbolKindNames"
    by (simp_all add: symbolKindName_def symbolKindNames_def)
  note e = findDocumentSymbols_occurrences
             [of "[''file:///q.echo'' \<mapsto> ?d]" "''file:///q.echo''" ?d, OF o, THEN conjunct1]
  have "map (\<lambda>s. (name s, symbolKind s, symbolKindName (symbolKind s),
             line (start (loc_range (location s))),
             character (start (loc_range (location s))),
             character (end_pos (loc_range (location s)))))
     (findDocumentSymbols [''file:///q.echo'' \<mapsto> ?d] ''file:///q.echo'')
   = [(''index'', 14, Some ''Constant'', 0, 0, 5),
      (''AS'', 14, Some ''Constant'', 1, 0, 2),
      (''as'', 14, Some ''Constant'', 1, 17, 19),
      (''host.hostname'', 7, Some ''Property'', 1, 3, 16)]"
    unfolding e g sp forEach_symbols.simps k0 f0 k1 f1 k2 f2 by (simp add: p n)
  with n(3,4) show ?thesis by (simp only: simp_thms)
qed


section \<open>Properties of the formatter\<close>

subsection \<open>The keyword replacement is whole-word upper-casing\<close>

lemma takeWhile_word_run:
  assumes "\<forall>c \<in> set m. isWord c" "rest = [] \<or> \<not> isWord (hd rest)"
  shows "takeWhile isWord (m @ rest) = m" "dropWhile isWord (m @ rest) = rest"
  using assms by (cases rest; simp add: takeWhile_append2 dropWhile_append2)+

lemma keyword_match_run:
  assumes "matchAt True echoKeywords p (c # cs) = Some m"
  shows "m = c # takeWhile isWord cs" "isWord c" "\<not> p" "drop (length m - 1) cs = dropWhile isWord cs"
proof -
  note k = keyword_match_word[OF assms]
  from assms have b: "wordBoundary p (c # cs)" by (simp add: matchAt_def split: if_splits)
  from assms have "firstAlternative True echoKeywords (c # cs) = Some m"
    by (simp add: matchAt_def split: if_splits)
  then obtain kw where "matchAlternative True kw (c # cs) = Some m"
    by (auto dest: firstAlternative_SomeD)
  from matchAlternative_SomeD(3,5)[OF this]
  have e: "wordBoundary (isWord (last m)) (drop (length m) (c # cs))" by simp
  from k(1,3) obtain m' where m: "m = c # m'" by (cases m) (auto simp: take_Cons')
  with k(2) show c: "isWord c" by simp
  with b show "\<not> p" by (simp add: wordBoundary_def)
  from k(1,2) have "isWord (last m)" by simp
  with e have after: "drop (length m) (c # cs) = [] \<or> \<not> isWord (hd (drop (length m) (c # cs)))"
    by (cases "drop (length m) (c # cs)") (auto simp: wordBoundary_def)
  have s: "c # cs = m @ drop (length m) (c # cs)"
    using k(3) by (metis append_take_drop_id)
  have "takeWhile isWord (c # cs) = m"
    by (subst s) (rule takeWhile_word_run(1)[OF k(2) after])
  with c show "m = c # takeWhile isWord cs" by simp
  have "dropWhile isWord (c # cs) = drop (length m) (c # cs)"
    by (subst s) (rule takeWhile_word_run(2)[OF k(2) after])
  with c m show "drop (length m - 1) cs = dropWhile isWord cs" by simp
qed

lemma firstAlternative_not_None:
  "alt \<in> set alts \<Longrightarrow> matchAlternative ci alt s = Some m \<Longrightarrow> firstAlternative ci alts s \<noteq> None"
  by (induction alts) (auto split: option.splits)

lemma takeWhile_dropWhile_Nil: "takeWhile P (dropWhile P xs) = []"
  by (induction xs) auto

lemma keyword_run_matches:
  assumes "isWord c" "toUpperCase (c # takeWhile isWord cs) \<in> set echoKeywords"
  shows "matchAt True echoKeywords False (c # cs) = Some (c # takeWhile isWord cs)"
proof -
  let ?w = "c # takeWhile isWord cs"
  let ?k = "toUpperCase ?w"
  have w: "\<forall>x \<in> set ?w. isWord x" using assms(1) by (auto dest: set_takeWhileD)
  have km: "?k = map toUpperChar ?w" using w by (rule toUpperCase_word)
  have up: "map toUpperChar ?w = map toUpperChar ?k"
    unfolding km by (simp add: toUpperChar_idem)
  have len: "length ?k = Suc (length (takeWhile isWord cs))"
    unfolding km by simp
  have "take (length (takeWhile isWord cs)) cs = takeWhile isWord cs"
    by (rule takeWhile_eq_take[symmetric])
  then have tk: "take (length ?k) (c # cs) = ?w"
    unfolding len by simp
  have dr: "drop (length ?k) (c # cs) = dropWhile isWord cs"
    unfolding len by (simp add: dropWhile_eq_drop[symmetric])
  have "dropWhile isWord cs = [] \<or> \<not> isWord (hd (dropWhile isWord cs))"
    by (metis hd_dropWhile)
  then have "wordBoundary True (drop (length ?k) (c # cs))"
    unfolding dr by (cases "dropWhile isWord cs") (simp_all add: wordBoundary_def del: dropWhile_eq_Nil_conv)
  moreover have "isWord (last ?w)"
  proof -
    have "last ?w \<in> set ?w" by (rule last_in_set) simp
    with w show ?thesis by blast
  qed
  moreover have "length ?k \<le> length (c # cs)"
    unfolding len by (simp add: length_takeWhile_le)
  ultimately have "matchAlternative True ?k (c # cs) = Some ?w"
    unfolding matchAlternative_def Let_def tk using up by (simp only: if_True simp_thms)
  from firstAlternative_not_None[OF assms(2) this]
  obtain m where m: "firstAlternative True echoKeywords (c # cs) = Some m" by auto
  then have "matchAt True echoKeywords False (c # cs) = Some m"
    using assms(1) by (simp add: matchAt_def wordBoundary_def)
  with keyword_match_run(1)[OF this] show ?thesis by simp
qed

lemma keyword_nonword_no_match:
  "\<not> isWord c \<Longrightarrow> matchAt True echoKeywords p (c # cs) = None"
  using keyword_match_run(2)[of p c cs] by (cases "matchAt True echoKeywords p (c # cs)") auto

lemma replaceKeywords_upperWords:
  "replaceKeywords p s = (if p then takeWhile isWord s @ upperWords (dropWhile isWord s) else upperWords s)"
proof (induction p s rule: replaceKeywords.induct)
  case (1 prevWord)
  then show ?case by simp
next
  case (2 prevWord c cs)
  show ?case
  proof (cases "matchAt True echoKeywords prevWord (c # cs)")
    case None
    note ih = "2.IH"(1)[OF None]
    show ?thesis
    proof (cases "isWord c")
      case True
      have "toUpperCase (c # takeWhile isWord cs) \<notin> set echoKeywords" if "\<not> prevWord"
        using keyword_run_matches[OF True, of cs] None that by auto
      with None ih True show ?thesis by (simp add: upperKeyword_def)
    next
      case False
      with None ih show ?thesis by simp
    qed
  next
    case (Some m)
    note r = keyword_match_run[OF Some]
    note k = keyword_match_word[OF Some]
    have l: "isWord (last m)" using k(1,2) by simp
    have "replaceKeywords (isWord (last m)) (drop (length m - 1) cs) = upperWords (dropWhile isWord cs)"
      using "2.IH"(2)[OF Some] unfolding r(4)
      by (simp only: l if_True takeWhile_dropWhile_Nil dropWhile_idem append_Nil)
    with Some r k(5) show ?thesis by (simp add: upperKeyword_def)
  qed
qed

subsection \<open>Upper-casing commutes with the spacing steps\<close>

lemma punct_not_word: "isPunctuation c \<Longrightarrow> \<not> isWord c"
  by (auto simp: isWord_def isPunctuation_def)

lemma punct_not_space: "isPunctuation c \<Longrightarrow> \<not> isSpace c"
  by (auto simp: isSpace_def isPunctuation_def)

lemma space_not_word: "isSpace c \<Longrightarrow> \<not> isWord c"
  by (auto simp: isSpace_def isWord_def)

lemma blank_facts [simp]: "isSpace CHR '' ''" "\<not> isWord CHR '' ''" "\<not> isPunctuation CHR '' ''"
  by (simp_all add: isSpace_def isWord_def isPunctuation_def)

lemma spaceAfterPunctuation_simps [simp]:
  "spaceAfterPunctuation [] = []"
  "spaceAfterPunctuation (c # cs) =
     (if isPunctuation c then c # CHR '' '' # spaceAfterPunctuation cs
      else c # spaceAfterPunctuation cs)"
  "spaceAfterPunctuation (a @ b) = spaceAfterPunctuation a @ spaceAfterPunctuation b"
  by (simp_all add: spaceAfterPunctuation_def)

lemma spaceAfterPunctuation_id:
  "\<forall>c \<in> set w. \<not> isPunctuation c \<Longrightarrow> spaceAfterPunctuation w = w"
  by (induction w) auto

lemma takeWhile_word_P: "takeWhile isWord (spaceAfterPunctuation s) = takeWhile isWord s"
  by (induction s) (auto dest: punct_not_word)

lemma dropWhile_word_P:
  "dropWhile isWord (spaceAfterPunctuation s) = spaceAfterPunctuation (dropWhile isWord s)"
  by (induction s) (auto dest: punct_not_word)

lemma upperKeyword_length [simp]: "length (upperKeyword w) = length w"
proof (cases "toUpperCase w \<in> set echoKeywords")
  case True
  then have "CHR 0xDF \<notin> set w" by (rule keyword_no_sharp)
  then have "toUpperCase w = map toUpperChar w" by (rule toUpperCase_map)
  then show ?thesis by (simp add: upperKeyword_def)
next
  case False
  then show ?thesis by (simp add: upperKeyword_def)
qed

lemma upperKeyword_Nil_iff [simp]: "upperKeyword w = [] \<longleftrightarrow> w = []"
  by (simp add: upperKeyword_def)

lemma upperKeyword_word:
  assumes "\<forall>c \<in> set w. isWord c"
  shows "\<forall>c \<in> set (upperKeyword w). isWord c"
  using assms toUpperCase_word[OF assms] by (auto simp: upperKeyword_def isWord_toUpperChar)

lemma upperKeyword_idem: "upperKeyword (upperKeyword w) = upperKeyword w"
  by (simp add: upperKeyword_def toUpperCase_idem)

lemma upperWords_run:
  assumes "m \<noteq> []" "\<forall>c \<in> set m. isWord c" "rest = [] \<or> \<not> isWord (hd rest)"
  shows "upperWords (m @ rest) = upperKeyword m @ upperWords rest"
proof -
  obtain c m' where m: "m = c # m'" using assms(1) by (cases m) auto
  have "takeWhile isWord (m' @ rest) = m'" "dropWhile isWord (m' @ rest) = rest"
    by (rule takeWhile_word_run[OF _ assms(3)]; use assms(2) m in simp)+
  with assms(2) m show ?thesis by simp
qed

lemma upperWords_nonword_head:
  "s = [] \<or> \<not> isWord (hd s) \<Longrightarrow> upperWords s = [] \<or> \<not> isWord (hd (upperWords s))"
  by (cases s) auto

lemma dropWhile_word_head: "dropWhile isWord cs = [] \<or> \<not> isWord (hd (dropWhile isWord cs))"
  by (metis hd_dropWhile)

lemma word_run_chars: "isWord c \<Longrightarrow> \<forall>x \<in> set (c # takeWhile isWord cs). isWord x"
  by (auto dest: set_takeWhileD)

lemma upperWords_idem: "upperWords (upperWords s) = upperWords s"
proof (induction s rule: upperWords.induct)
  case 1
  then show ?case by simp
next
  case (2 c cs)
  show ?case
  proof (cases "isWord c")
    case True
    let ?w = "c # takeWhile isWord cs"
    let ?r = "dropWhile isWord cs"
    have w: "\<forall>x \<in> set ?w. isWord x" by (rule word_run_chars[OF True])
    have 1: "upperKeyword ?w \<noteq> []" by simp
    have 2: "\<forall>x \<in> set (upperKeyword ?w). isWord x" by (rule upperKeyword_word[OF w])
    have 3: "upperWords ?r = [] \<or> \<not> isWord (hd (upperWords ?r))"
      by (rule upperWords_nonword_head[OF dropWhile_word_head])
    have "upperWords (upperKeyword ?w @ upperWords ?r)
            = upperKeyword (upperKeyword ?w) @ upperWords (upperWords ?r)"
      by (rule upperWords_run[OF 1 2 3])
    also have "\<dots> = upperKeyword ?w @ upperWords ?r"
      using "2.IH"(1)[OF True] by (simp only: upperKeyword_idem)
    finally show ?thesis using True by simp
  next
    case False
    with "2.IH"(2) show ?thesis by simp
  qed
qed

lemma upperWords_P: "upperWords (spaceAfterPunctuation s) = spaceAfterPunctuation (upperWords s)"
proof (induction s rule: upperWords.induct)
  case 1
  then show ?case by simp
next
  case (2 c cs)
  show ?case
  proof (cases "isWord c")
    case True
    then have np: "\<not> isPunctuation c" using punct_not_word by blast
    let ?w = "c # takeWhile isWord cs"
    have "\<forall>x \<in> set (upperKeyword ?w). isWord x"
      by (rule upperKeyword_word[OF word_run_chars[OF True]])
    then have "\<forall>x \<in> set (upperKeyword ?w). \<not> isPunctuation x" using punct_not_word by blast
    then have "spaceAfterPunctuation (upperKeyword ?w) = upperKeyword ?w"
      by (rule spaceAfterPunctuation_id)
    with True np "2.IH"(1) show ?thesis
      by (simp add: takeWhile_word_P dropWhile_word_P)
  next
    case False
    with "2.IH"(2) show ?thesis by simp
  qed
qed


declare collapseWhitespace.simps [simp del]

lemma collapse_Nil [simp]: "collapseWhitespace [] = []"
  by (simp add: collapseWhitespace.simps)

lemma collapse_space: "isSpace c \<Longrightarrow>
  collapseWhitespace (c # cs) = CHR '' '' # collapseWhitespace (dropWhile isSpace cs)"
  by (simp add: collapseWhitespace.simps)

lemma collapse_other: "\<not> isSpace c \<Longrightarrow> collapseWhitespace (c # cs) = c # collapseWhitespace cs"
  by (simp add: collapseWhitespace.simps)

lemma collapse_no_space_append:
  "\<forall>c \<in> set a. \<not> isSpace c \<Longrightarrow> collapseWhitespace (a @ b) = a @ collapseWhitespace b"
  by (induction a) (auto simp: collapse_other)

lemma takeWhile_word_C: "takeWhile isWord (collapseWhitespace s) = takeWhile isWord s"
proof (induction s rule: collapseWhitespace.induct)
  case 1
  then show ?case by simp
next
  case (2 c cs)
  then show ?case
    by (cases "isSpace c") (auto simp: collapse_space collapse_other space_not_word)
qed

lemma dropWhile_word_C:
  "dropWhile isWord (collapseWhitespace s) = collapseWhitespace (dropWhile isWord s)"
proof (induction s rule: collapseWhitespace.induct)
  case 1
  then show ?case by simp
next
  case (2 c cs)
  then show ?case
    by (cases "isSpace c") (auto simp: collapse_space collapse_other space_not_word)
qed

lemma upperKeyword_no_space:
  assumes "\<forall>c \<in> set w. isWord c"
  shows "\<forall>c \<in> set (upperKeyword w). \<not> isSpace c"
  using upperKeyword_word[OF assms] space_not_word by blast

lemma dropWhile_space_upperWords:
  "dropWhile isSpace (upperWords s) = upperWords (dropWhile isSpace s)"
proof (induction s)
  case Nil
  then show ?case by simp
next
  case (Cons c cs)
  show ?case
  proof (cases "isSpace c")
    case True
    with Cons show ?thesis by (simp add: space_not_word)
  next
    case False
    show ?thesis
    proof (cases "isWord c")
      case True
      let ?w = "c # takeWhile isWord cs"
      have "upperKeyword ?w \<noteq> []" by simp
      moreover have "\<forall>x \<in> set (upperKeyword ?w). \<not> isSpace x"
        by (rule upperKeyword_no_space[OF word_run_chars[OF True]])
      ultimately have "dropWhile isSpace (upperKeyword ?w @ upperWords (dropWhile isWord cs))
                        = upperKeyword ?w @ upperWords (dropWhile isWord cs)"
        by (cases "upperKeyword ?w") auto
      with True False show ?thesis by simp
    next
      case nw: False
      with False show ?thesis by simp
    qed
  qed
qed

lemma upperWords_C: "upperWords (collapseWhitespace s) = collapseWhitespace (upperWords s)"
proof (induction "length s" arbitrary: s rule: less_induct)
  case less
  show ?case
  proof (cases s)
    case Nil
    then show ?thesis by simp
  next
    case (Cons c cs)
    show ?thesis
    proof (cases "isSpace c")
      case True
      have "length (dropWhile isSpace cs) < length s"
        using Cons by (simp add: less_Suc_eq_le length_dropWhile_le)
      from less[OF this] True Cons show ?thesis
        by (simp add: collapse_space space_not_word dropWhile_space_upperWords)
    next
      case False
      show ?thesis
      proof (cases "isWord c")
        case True
        let ?w = "c # takeWhile isWord cs"
        have "length (dropWhile isWord cs) < length s"
          using Cons by (simp add: less_Suc_eq_le length_dropWhile_le)
        note ih = less[OF this]
        have ns: "\<forall>x \<in> set (upperKeyword ?w). \<not> isSpace x"
          by (rule upperKeyword_no_space[OF word_run_chars[OF True]])
        have "upperWords (collapseWhitespace s)
                = upperKeyword ?w @ upperWords (collapseWhitespace (dropWhile isWord cs))"
          using True False Cons by (simp add: collapse_other takeWhile_word_C dropWhile_word_C)
        also have "\<dots> = upperKeyword ?w @ collapseWhitespace (upperWords (dropWhile isWord cs))"
          by (simp only: ih)
        also have "\<dots> = collapseWhitespace (upperKeyword ?w @ upperWords (dropWhile isWord cs))"
          by (simp only: collapse_no_space_append[OF ns])
        finally show ?thesis using True Cons by simp
      next
        case nw: False
        have "length cs < length s" using Cons by simp
        from less[OF this] nw False Cons show ?thesis by (simp add: collapse_other)
      qed
    qed
  qed
qed

lemma upperWords_append_nonword:
  assumes "\<forall>c \<in> set r. \<not> isWord c"
  shows "upperWords (x @ r) = upperWords x @ r"
proof (induction x rule: upperWords.induct)
  case 1
  show ?case using assms by (induction r) auto
next
  case (2 c cs)
  show ?case
  proof (cases "isWord c")
    case True
    have t: "takeWhile isWord (cs @ r) = takeWhile isWord cs"
      by (rule takeWhile_append_none) (use assms in auto)
    have d: "dropWhile isWord (cs @ r) = dropWhile isWord cs @ r"
      by (rule dropWhile_append_none) (use assms in auto)
    from True "2.IH"(1) show ?thesis by (simp add: t d)
  next
    case False
    with "2.IH"(2) show ?thesis by simp
  qed
qed

lemma map_all_False: "\<forall>x \<in> set xs. \<not> P x \<Longrightarrow> map P xs = replicate (length xs) False"
  by (induction xs) auto

lemma upperWords_spaces: "map isSpace (upperWords s) = map isSpace s"
proof (induction s rule: upperWords.induct)
  case 1
  then show ?case by simp
next
  case (2 c cs)
  show ?case
  proof (cases "isWord c")
    case True
    let ?w = "c # takeWhile isWord cs"
    have w: "\<forall>x \<in> set ?w. isWord x" by (rule word_run_chars[OF True])
    have "map isSpace (upperKeyword ?w) = replicate (length (upperKeyword ?w)) False"
      by (rule map_all_False[OF upperKeyword_no_space[OF w]])
    moreover have "map isSpace ?w = replicate (length ?w) False"
      by (rule map_all_False) (use w space_not_word in blast)
    ultimately have "map isSpace (upperKeyword ?w) = map isSpace ?w" by simp
    moreover have "c # cs = ?w @ dropWhile isWord cs" by simp
    ultimately show ?thesis using True "2.IH"(1)
      by (metis map_append upperWords.simps(2))
  next
    case False
    with "2.IH"(2) show ?thesis by simp
  qed
qed


lemma trim_Cons_space: "isSpace a \<Longrightarrow> trim (a # z) = trim z"
  by (simp add: trim_def)

lemma trim_prefix_space: "\<forall>c \<in> set l. isSpace c \<Longrightarrow> trim (l @ z) = trim z"
  by (induction l) (auto simp: trim_Cons_space)

lemma trim_append_space:
  assumes "\<forall>c \<in> set r. isSpace c"
  shows "trim (y @ r) = trim y"
proof (cases "\<forall>c \<in> set y. isSpace c")
  case True
  then have "dropWhile isSpace (y @ r) = []" "dropWhile isSpace y = []"
    using assms by (auto simp: dropWhile_eq_Nil_conv)
  then show ?thesis by (simp only: trim_def)
next
  case False
  then have "dropWhile isSpace (y @ r) = dropWhile isSpace y @ r"
    by (auto simp: dropWhile_append1)
  moreover have "dropWhile isSpace (rev r @ rev (dropWhile isSpace y))
                  = dropWhile isSpace (rev (dropWhile isSpace y))"
    by (rule dropWhile_append2) (use assms in simp)
  ultimately show ?thesis by (simp only: trim_def rev_append)
qed

lemma trim_id:
  assumes "z = [] \<or> (\<not> isSpace (hd z) \<and> \<not> isSpace (last z))"
  shows "trim z = z"
proof (cases z)
  case Nil
  then show ?thesis by (simp add: trim_def)
next
  case (Cons a as)
  with assms have h: "\<not> isSpace a" "\<not> isSpace (last z)" by auto
  then have 1: "dropWhile isSpace z = z" using Cons by simp
  have "rev z \<noteq> []" using Cons by simp
  moreover have "hd (rev z) = last z" using Cons by (simp add: hd_rev)
  ultimately have 2: "dropWhile isSpace (rev z) = rev z" using h(2)
    by (simp only: dropWhile_eq_self_iff) simp
  show ?thesis by (simp only: trim_def 1 2 rev_rev_ident)
qed

lemma trim_split:
  obtains l r where "s = l @ trim s @ r" "\<forall>c \<in> set l. isSpace c" "\<forall>c \<in> set r. isSpace c"
proof -
  obtain r where r: "dropWhile isSpace s = trim s @ r" "\<forall>c \<in> set r. isSpace c" by (rule trim_decomp)
  have "s = takeWhile isSpace s @ dropWhile isSpace s" by simp
  then have "s = takeWhile isSpace s @ trim s @ r" by (simp only: r(1))
  moreover have "\<forall>c \<in> set (takeWhile isSpace s). isSpace c" by (auto dest: set_takeWhileD)
  ultimately show ?thesis using r(2) that by blast
qed

lemma upperWords_prefix_nonword:
  "\<forall>c \<in> set l. \<not> isWord c \<Longrightarrow> upperWords (l @ x) = l @ upperWords x"
  by (induction l) auto

lemma upperWords_Nil_iff [simp]: "upperWords s = [] \<longleftrightarrow> s = []"
  by (cases s) auto

lemma upperWords_T: "upperWords (trim s) = trim (upperWords s)"
proof -
  obtain l r where lr: "s = l @ trim s @ r" "\<forall>c \<in> set l. isSpace c" "\<forall>c \<in> set r. isSpace c"
    by (rule trim_split)
  let ?t = "trim s"
  let ?y = "upperWords ?t"
  have nl: "\<forall>c \<in> set l. \<not> isWord c" and nr: "\<forall>c \<in> set r. \<not> isWord c"
    using lr(2,3) space_not_word by blast+
  have "upperWords (l @ ?t @ r) = l @ ?y @ r"
    by (simp only: upperWords_prefix_nonword[OF nl] upperWords_append_nonword[OF nr])
  then have "upperWords s = l @ ?y @ r" using lr(1) by simp
  then have "trim (upperWords s) = trim ?y"
    using trim_prefix_space[OF lr(2), of "?y @ r"] trim_append_space[OF lr(3), of ?y] by simp
  also have "\<dots> = ?y"
  proof (rule trim_id, cases "?t = []")
    case True
    then show "?y = [] \<or> (\<not> isSpace (hd ?y) \<and> \<not> isSpace (last ?y))" by simp
  next
    case False
    then have y: "?y \<noteq> []" by simp
    have m: "map isSpace ?y = map isSpace ?t" by (rule upperWords_spaces)
    have "isSpace (hd ?y) = hd (map isSpace ?y)" using y by (simp add: hd_map)
    also have "\<dots> = isSpace (hd ?t)" using False by (simp add: m hd_map)
    finally have h: "\<not> isSpace (hd ?y)" using trim_ends(1)[OF False] by simp
    have "isSpace (last ?y) = last (map isSpace ?y)" using y by (simp add: last_map)
    also have "\<dots> = isSpace (last ?t)" using False by (simp add: m last_map)
    finally have "\<not> isSpace (last ?y)" using trim_ends(2)[OF False] by simp
    with h show "?y = [] \<or> (\<not> isSpace (hd ?y) \<and> \<not> isSpace (last ?y))" by simp
  qed
  finally show ?thesis by simp
qed


lemma punctFollowed_P: "punctFollowed (spaceAfterPunctuation t)"
proof (induction t)
  case Nil
  then show ?case by simp
next
  case (Cons c cs)
  then show ?case
    by (cases "spaceAfterPunctuation cs") (auto split: if_splits)
qed

lemma punctFollowed_tl: "punctFollowed (c # cs) \<Longrightarrow> punctFollowed cs"
  by (cases cs) auto

lemma punctFollowed_dropWhile: "punctFollowed x \<Longrightarrow> punctFollowed (dropWhile f x)"
  by (induction x) (auto dest: punctFollowed_tl)

lemma punctFollowed_Cons_punct:
  "punctFollowed (c # cs) \<Longrightarrow> isPunctuation c \<Longrightarrow> \<exists>d ds. cs = d # ds \<and> isSpace d"
  by (cases cs) auto

lemma punctFollowed_ConsI:
  "\<not> isPunctuation c \<Longrightarrow> punctFollowed cs \<Longrightarrow> punctFollowed (c # cs)"
  by (cases cs) auto

lemma punctFollowed_C:
  "punctFollowed x \<Longrightarrow> punctFollowed (collapseWhitespace x)"
proof (induction x rule: collapseWhitespace.induct)
  case 1
  then show ?case by simp
next
  case (2 c cs)
  show ?case
  proof (cases "isSpace c")
    case True
    have "punctFollowed (dropWhile isSpace cs)"
      by (rule punctFollowed_dropWhile[OF punctFollowed_tl[OF "2.prems"]])
    from "2.IH"(1)[OF True this] True show ?thesis
      by (simp add: collapse_space punctFollowed_ConsI)
  next
    case False
    note ih = "2.IH"(2)[OF False punctFollowed_tl[OF "2.prems"]]
    show ?thesis
    proof (cases "isPunctuation c")
      case True
      from punctFollowed_Cons_punct[OF "2.prems" True] obtain d ds where d: "cs = d # ds" "isSpace d"
        by blast
      then have "collapseWhitespace cs = CHR '' '' # collapseWhitespace (dropWhile isSpace ds)"
        by (simp add: collapse_space)
      with ih False show ?thesis by (simp add: collapse_other)
    next
      case np: False
      with ih False show ?thesis by (simp add: collapse_other punctFollowed_ConsI)
    qed
  qed
qed

lemma dropWhile_space_P:
  "dropWhile isSpace (spaceAfterPunctuation s) = spaceAfterPunctuation (dropWhile isSpace s)"
  by (induction s) (auto dest: punct_not_space)

lemma collapse_P:
  "punctFollowed y \<Longrightarrow> collapseWhitespace (spaceAfterPunctuation y) = collapseWhitespace y"
proof (induction y rule: collapseWhitespace.induct)
  case 1
  then show ?case by simp
next
  case (2 c cs)
  show ?case
  proof (cases "isSpace c")
    case True
    then have np: "\<not> isPunctuation c" using punct_not_space by blast
    have "punctFollowed (dropWhile isSpace cs)"
      by (rule punctFollowed_dropWhile[OF punctFollowed_tl[OF "2.prems"]])
    from "2.IH"(1)[OF True this] True np show ?thesis
      by (simp add: collapse_space dropWhile_space_P)
  next
    case False
    note ih = "2.IH"(2)[OF False punctFollowed_tl[OF "2.prems"]]
    show ?thesis
    proof (cases "isPunctuation c")
      case True
      from punctFollowed_Cons_punct[OF "2.prems" True] obtain d ds where d: "cs = d # ds" "isSpace d"
        by blast
      then have nd: "\<not> isPunctuation d" using punct_not_space by blast
      have "collapseWhitespace (spaceAfterPunctuation (c # cs))
              = c # CHR '' '' # collapseWhitespace (dropWhile isSpace (spaceAfterPunctuation cs))"
        using True False by (simp add: collapse_other collapse_space)
      also have "dropWhile isSpace (spaceAfterPunctuation cs) = dropWhile isSpace (spaceAfterPunctuation ds)"
        using d nd by simp
      also have "c # CHR '' '' # collapseWhitespace (dropWhile isSpace (spaceAfterPunctuation ds))
                  = c # collapseWhitespace (spaceAfterPunctuation cs)"
        using d nd by (simp add: collapse_space)
      also have "\<dots> = c # collapseWhitespace cs" by (simp only: ih)
      finally show ?thesis using False by (simp add: collapse_other)
    next
      case np: False
      with ih False show ?thesis by (simp add: collapse_other)
    qed
  qed
qed

lemma collapse_head:
  "s = [] \<or> \<not> isSpace (hd s) \<Longrightarrow> collapseWhitespace s = [] \<or> \<not> isSpace (hd (collapseWhitespace s))"
  by (cases s) (auto simp: collapse_other)

lemma dropWhile_space_head: "dropWhile isSpace cs = [] \<or> \<not> isSpace (hd (dropWhile isSpace cs))"
  by (metis hd_dropWhile)

lemma collapse_idem: "collapseWhitespace (collapseWhitespace x) = collapseWhitespace x"
proof (induction x rule: collapseWhitespace.induct)
  case 1
  then show ?case by simp
next
  case (2 c cs)
  show ?case
  proof (cases "isSpace c")
    case True
    let ?z = "collapseWhitespace (dropWhile isSpace cs)"
    have "?z = [] \<or> \<not> isSpace (hd ?z)" by (rule collapse_head[OF dropWhile_space_head])
    then have "dropWhile isSpace ?z = ?z" by (cases ?z) auto
    with "2.IH"(1)[OF True] True show ?thesis by (simp add: collapse_space)
  next
    case False
    with "2.IH"(2) show ?thesis by (simp add: collapse_other)
  qed
qed

lemma collapse_all_space:
  "\<forall>c \<in> set r. isSpace c \<Longrightarrow> \<forall>c \<in> set (collapseWhitespace r). isSpace c"
  by (cases r) (auto simp: collapse_space dropWhile_eq_Nil_conv[THEN iffD2])

lemma collapse_append_space:
  assumes "\<forall>c \<in> set r. isSpace c"
  shows "\<exists>r'. collapseWhitespace (x @ r) = collapseWhitespace x @ r' \<and> (\<forall>c \<in> set r'. isSpace c)"
  using assms
proof (induction x arbitrary: r rule: collapseWhitespace.induct)
  case 1
  then show ?case using collapse_all_space by auto
next
  case (2 c cs)
  show ?case
  proof (cases "isSpace c")
    case True
    obtain r0 where r0: "dropWhile isSpace (cs @ r) = dropWhile isSpace cs @ r0" "\<forall>c \<in> set r0. isSpace c"
    proof (cases "\<forall>x \<in> set cs. isSpace x")
      case all: True
      then have "dropWhile isSpace (cs @ r) = []" "dropWhile isSpace cs = []"
        using "2.prems" by (auto simp: dropWhile_eq_Nil_conv)
      then have "dropWhile isSpace (cs @ r) = dropWhile isSpace cs @ []"
        by (simp only: append_Nil2)
      then show ?thesis using that by auto
    next
      case False
      then have "dropWhile isSpace (cs @ r) = dropWhile isSpace cs @ r"
        by (auto simp: dropWhile_append1)
      then show ?thesis using that "2.prems" by auto
    qed
    from "2.IH"(1)[OF True r0(2)] obtain r' where
      "collapseWhitespace (dropWhile isSpace cs @ r0) = collapseWhitespace (dropWhile isSpace cs) @ r'"
      "\<forall>c \<in> set r'. isSpace c" by blast
    with True r0(1) show ?thesis by (auto simp: collapse_space)
  next
    case False
    from "2.IH"(2)[OF False "2.prems"] False show ?thesis by (auto simp: collapse_other)
  qed
qed

lemma trim_collapse_dropWhile:
  "trim (collapseWhitespace x) = trim (collapseWhitespace (dropWhile isSpace x))"
  by (cases x) (auto simp: collapse_space trim_Cons_space)

lemma trim_collapse_pad:
  assumes "\<forall>c \<in> set l. isSpace c" "\<forall>c \<in> set r. isSpace c"
  shows "trim (collapseWhitespace (l @ x @ r)) = trim (collapseWhitespace x)"
proof -
  have "trim (collapseWhitespace (l @ x @ r)) = trim (collapseWhitespace (dropWhile isSpace (l @ x @ r)))"
    by (rule trim_collapse_dropWhile)
  also have "dropWhile isSpace (l @ x @ r) = dropWhile isSpace (x @ r)"
    by (rule dropWhile_append2) (use assms(1) in simp)
  also have "trim (collapseWhitespace (dropWhile isSpace (x @ r))) = trim (collapseWhitespace (x @ r))"
    by (rule trim_collapse_dropWhile[symmetric])
  also obtain r' where "collapseWhitespace (x @ r) = collapseWhitespace x @ r'" "\<forall>c \<in> set r'. isSpace c"
    using collapse_append_space[OF assms(2)] by blast
  then have "trim (collapseWhitespace (x @ r)) = trim (collapseWhitespace x)"
    by (simp add: trim_append_space)
  finally show ?thesis .
qed

lemma space_not_punct: "isSpace c \<Longrightarrow> \<not> isPunctuation c"
  using punct_not_space by blast

lemma normalizeSpacing_trim: "normalizeSpacing (trim y) = normalizeSpacing y"
proof -
  obtain l r where lr: "y = l @ trim y @ r" "\<forall>c \<in> set l. isSpace c" "\<forall>c \<in> set r. isSpace c"
    by (rule trim_split)
  have "spaceAfterPunctuation l = l" "spaceAfterPunctuation r = r"
    by (rule spaceAfterPunctuation_id; use lr space_not_punct in blast)+
  then have "spaceAfterPunctuation (l @ trim y @ r) = l @ spaceAfterPunctuation (trim y) @ r"
    by simp
  then have "normalizeSpacing (l @ trim y @ r) = normalizeSpacing (trim y)"
    by (simp add: normalizeSpacing_def trim_collapse_pad[OF lr(2,3)])
  with lr(1) show ?thesis by simp
qed

lemma normalizeSpacing_idem: "normalizeSpacing (normalizeSpacing t) = normalizeSpacing t"
proof -
  let ?y = "collapseWhitespace (spaceAfterPunctuation t)"
  have pf: "punctFollowed ?y" by (rule punctFollowed_C[OF punctFollowed_P])
  have "normalizeSpacing (normalizeSpacing t) = normalizeSpacing ?y"
    unfolding normalizeSpacing_def[of t] by (rule normalizeSpacing_trim)
  also have "\<dots> = trim (collapseWhitespace ?y)"
    by (simp only: normalizeSpacing_def collapse_P[OF pf])
  also have "\<dots> = normalizeSpacing t"
    by (simp only: collapse_idem normalizeSpacing_def)
  finally show ?thesis .
qed

lemma upperWords_normalizeSpacing:
  "upperWords (normalizeSpacing s) = normalizeSpacing (upperWords s)"
  by (simp only: normalizeSpacing_def upperWords_T upperWords_C upperWords_P)

lemma formatLine_upperWords: "formatLine ln = normalizeSpacing (upperWords ln)"
  by (simp add: formatLine_def normalizeSpacing_def replaceKeywords_upperWords)

lemma formatLine_idem: "formatLine (formatLine ln) = formatLine ln"
  by (simp only: formatLine_upperWords upperWords_normalizeSpacing upperWords_idem normalizeSpacing_idem)


lemma split_char_no_sep: "sep \<notin> set p \<Longrightarrow> split_char sep p = [p]"
  by (induction p) auto

lemma split_char_append:
  "sep \<notin> set p \<Longrightarrow> split_char sep (p @ sep # rest) = p # split_char sep rest"
  by (induction p) auto

lemma split_char_join:
  "ls \<noteq> [] \<Longrightarrow> \<forall>l \<in> set ls. sep \<notin> set l \<Longrightarrow> split_char sep (join [sep] ls) = ls"
proof (induction "[sep]" ls rule: join.induct)
  case 1
  then show ?case by simp
next
  case (2 p)
  then show ?case by (simp add: split_char_no_sep)
next
  case (3 p q ps)
  then show ?case by (simp add: split_char_append)
qed

lemma collapse_spaces_blank:
  "c \<in> set (collapseWhitespace x) \<Longrightarrow> isSpace c \<Longrightarrow> c = CHR '' ''"
proof (induction x rule: collapseWhitespace.induct)
  case 1
  then show ?case by simp
next
  case (2 a as)
  then show ?case
    by (cases "isSpace a") (auto simp: collapse_space collapse_other)
qed

lemma set_trim: "set (trim y) \<subseteq> set y"
  unfolding trim_def by (auto dest!: set_dropWhileD)

lemma formatLine_no_newline: "CHR 0x0A \<notin> set (formatLine ln)"
proof
  assume "CHR 0x0A \<in> set (formatLine ln)"
  then have "CHR 0x0A \<in> set (collapseWhitespace (spaceAfterPunctuation (replaceKeywords False ln)))"
    unfolding formatLine_def using set_trim by blast
  moreover have "isSpace CHR 0x0A" by (simp add: isSpace_def)
  ultimately have "CHR 0x0A = CHR '' ''" by (rule collapse_spaces_blank)
  then show False by simp
qed

lemma formatText_idem: "formatText (formatText t) = formatText t"
proof -
  let ?ls = "map formatLine (split_char CHR 0x0A t)"
  have "?ls \<noteq> []" by (simp add: split_char_nonempty)
  moreover have "\<forall>l \<in> set ?ls. CHR 0x0A \<notin> set l" by (auto simp: formatLine_no_newline)
  ultimately have "split_char CHR 0x0A (join [CHR 0x0A] ?ls) = ?ls" by (rule split_char_join)
  moreover have "map formatLine ?ls = ?ls" by (simp add: formatLine_idem)
  ultimately show ?thesis by (simp only: formatText_def)
qed


subsection \<open>Formatting twice\<close>

text \<open>
  Runs of whitespace with no-break spaces collapse to one blank and are trimmed; a
  keyword is matched without regard to letter case, and only ASCII letters match.
\<close>

lemma formatText_no_break_space:
  "formatText [CHR ''a'', CHR 0xA0, CHR 0xA0, CHR ''b'', CHR 0xA0] = ''a b''"
  "formatText ([CHR 0xA0] @ ''map(x)'' @ [CHR 0x09, CHR 0xA0] @ ''As y'') = ''MAP( x) AS y''"
  "formatText [CHR ''a'', CHR 0xDF] = [CHR ''a'', CHR 0xDF]"
  by code_simp+

text \<open>
  Claim C3, as the source has it. The example of the claim keeps \<^verbatim>\<open>filter\<close> in lower
  case. In the line \<^verbatim>\<open>index  users,filter\<close> the word \<^verbatim>\<open>filter\<close> stands between a comma and the
  end of the line, so it is a whole word and one of the seven keywords: the formatter
  upper-cases it.
\<close>

theorem C3_format_example_counterexample:
  "formatText ''index  users,filter'' = ''INDEX users, FILTER''
   \<and> formatText ''index  users,filter'' \<noteq> ''INDEX users, filter''
   \<and> format [''file:///q.echo'' \<mapsto> oneLineDocument ''file:///q.echo'' ''index  users,filter'']
        ''file:///q.echo''
        \<lparr> start = \<lparr> line = 0, character = 0 \<rparr>, end_pos = \<lparr> line = 0, character = 19 \<rparr> \<rparr>
     = [\<lparr> edit_range = \<lparr> start = \<lparr> line = 0, character = 0 \<rparr>,
                          end_pos = \<lparr> line = 0, character = 19 \<rparr> \<rparr>,
          newText = ''INDEX users, FILTER'' \<rparr>]"
  by code_simp


text \<open>
  Claim C3, amended. Formatting is idempotent: formatting a text that the formatter
  produced returns it unchanged. Every line of the text is rewritten by upper-casing the
  whole words that are keywords in any letter case, then inserting a blank after each of
  \<^verbatim>\<open>, ( ) { }\<close>, then replacing each run of whitespace by one blank, then trimming; the lines
  are joined by newlines again, and the edit replaces the requested range by the result.
  The line \<^verbatim>\<open>index  users,filter\<close> becomes \<^verbatim>\<open>INDEX users, FILTER\<close>.
\<close>

theorem C3_format_idempotent:
  "formatText (formatText t) = formatText t
   \<and> formatText t
       = join [CHR 0x0A]
           (map (\<lambda>ln. trim (collapseWhitespace (spaceAfterPunctuation (upperWords ln))))
              (split_char CHR 0x0A t))
   \<and> format (documents(u \<mapsto> document)) u rng
       = [\<lparr> edit_range = rng, newText = formatText (getTextIn document rng) \<rparr>]
   \<and> formatText ''index  users,filter'' = ''INDEX users, FILTER''"
proof -
  have "formatText ''index  users,filter'' = ''INDEX users, FILTER''" by code_simp
  moreover have "formatLine = (\<lambda>ln. trim (collapseWhitespace (spaceAfterPunctuation (upperWords ln))))"
    by (intro ext) (simp add: formatLine_upperWords normalizeSpacing_def)
  ultimately show ?thesis
    by (simp add: formatText_idem format_def) (simp add: formatText_def)
qed

end
